theory Spec2Isabelle
  imports Main "HOL-Library.Word" "HOL-Library.Signed_Division"
begin

unbundle bit_operations_syntax

section \<open>The CRSF serial receiver (src/main/rx/crsf.c)\<close>

text \<open>
  A shallow embedding of the receive side of \<^verbatim>\<open>crsf.c\<close>, for the build in which
  \<^verbatim>\<open>USE_CRSF_V3\<close>, \<^verbatim>\<open>USE_TELEMETRY_CRSF\<close>, \<^verbatim>\<open>USE_MSP_OVER_TELEMETRY\<close>,
  \<^verbatim>\<open>USE_CRSF_CMS_TELEMETRY\<close>, \<^verbatim>\<open>USE_CRSF_LINK_STATISTICS\<close>, \<^verbatim>\<open>USE_RX_RSSI_DBM\<close> and
  \<^verbatim>\<open>USE_RX_LINK_QUALITY_INFO\<close> are all defined.

  The file-scope variables and the function-local statics of \<^verbatim>\<open>crsfDataReceive\<close> are the
  fields of one record that every entry point takes and returns. The C integer types are
  words of their width. The 64-byte union \<^verbatim>\<open>crsfFrame_t\<close> is the list of its bytes; an
  access outside an array is undefined in C and is a value of type \<open>crsfFault\<close> here, so
  that it is a branch of the model instead of an unspecified list access. A call to a
  function of another translation unit is an entry of the list of calls a step returns.
\<close>

type_synonym u8 = "8 word"
type_synonym u16 = "16 word"
type_synonym u32 = "32 word"

subsection \<open>Constants\<close>

definition CRSF_TIME_NEEDED_PER_FRAME_US :: u32 where
  "CRSF_TIME_NEEDED_PER_FRAME_US = 1100"

definition CRSF_FRAME_ERROR_COUNT_THRESHOLD :: u32 where
  "CRSF_FRAME_ERROR_COUNT_THRESHOLD = 100"

definition CRSF_SUBSET_RC_CHANNELS_PACKED_RESOLUTION :: nat where
  "CRSF_SUBSET_RC_CHANNELS_PACKED_RESOLUTION = 11"

definition CRSF_SUBSET_RC_CHANNELS_PACKED_MASK :: u32 where
  "CRSF_SUBSET_RC_CHANNELS_PACKED_MASK = 0x07FF"

definition CRSF_SUBSET_RC_CHANNELS_PACKED_STARTING_CHANNEL_RESOLUTION :: nat where
  "CRSF_SUBSET_RC_CHANNELS_PACKED_STARTING_CHANNEL_RESOLUTION = 5"

definition CRSF_SUBSET_RC_CHANNELS_PACKED_STARTING_CHANNEL_MASK :: u8 where
  "CRSF_SUBSET_RC_CHANNELS_PACKED_STARTING_CHANNEL_MASK = 0x1F"

text \<open>
  Modelled from the spec: the constants of \<^verbatim>\<open>rx/crsf.h\<close>, \<^verbatim>\<open>rx/crsf_protocol.h\<close> and
  \<^verbatim>\<open>rx/rx.h\<close>, none of which is among the sources. The spec gives the frame buffer 64
  bytes, the channel array 16 entries and the wire size as \<open>length + 2\<close> (one address byte,
  one length byte; the length counts the type and the CRC byte besides the payload). The
  frame types and the flight-controller address carry the values of the CRSF protocol; the
  theorems below use of them only that they are the constants the code compares with.
\<close>

definition CRSF_FRAME_SIZE_MAX :: nat where
  "CRSF_FRAME_SIZE_MAX = 64"

definition CRSF_MAX_CHANNEL :: nat where
  "CRSF_MAX_CHANNEL = 16"

definition CRSF_FRAME_LENGTH_ADDRESS :: int where
  "CRSF_FRAME_LENGTH_ADDRESS = 1"

definition CRSF_FRAME_LENGTH_FRAMELENGTH :: int where
  "CRSF_FRAME_LENGTH_FRAMELENGTH = 1"

definition CRSF_FRAME_LENGTH_TYPE_CRC :: int where
  "CRSF_FRAME_LENGTH_TYPE_CRC = 2"

definition CRSF_FRAME_ORIGIN_DEST_SIZE :: nat where
  "CRSF_FRAME_ORIGIN_DEST_SIZE = 2"

definition CRSF_FRAME_LINK_STATISTICS_PAYLOAD_SIZE :: nat where
  "CRSF_FRAME_LINK_STATISTICS_PAYLOAD_SIZE = 10"

definition CRSF_FRAME_RX_MSP_FRAME_SIZE :: nat where
  "CRSF_FRAME_RX_MSP_FRAME_SIZE = 8"

definition CRSF_ADDRESS_FLIGHT_CONTROLLER :: u8 where
  "CRSF_ADDRESS_FLIGHT_CONTROLLER = 0xC8"

definition CRSF_FRAMETYPE_LINK_STATISTICS :: u8 where
  "CRSF_FRAMETYPE_LINK_STATISTICS = 0x14"

definition CRSF_FRAMETYPE_RC_CHANNELS_PACKED :: u8 where
  "CRSF_FRAMETYPE_RC_CHANNELS_PACKED = 0x16"

definition CRSF_FRAMETYPE_SUBSET_RC_CHANNELS_PACKED :: u8 where
  "CRSF_FRAMETYPE_SUBSET_RC_CHANNELS_PACKED = 0x17"

definition CRSF_FRAMETYPE_LINK_STATISTICS_RX :: u8 where
  "CRSF_FRAMETYPE_LINK_STATISTICS_RX = 0x1C"

definition CRSF_FRAMETYPE_LINK_STATISTICS_TX :: u8 where
  "CRSF_FRAMETYPE_LINK_STATISTICS_TX = 0x1D"

definition CRSF_FRAMETYPE_DEVICE_PING :: u8 where
  "CRSF_FRAMETYPE_DEVICE_PING = 0x28"

definition CRSF_FRAMETYPE_COMMAND :: u8 where
  "CRSF_FRAMETYPE_COMMAND = 0x32"

definition CRSF_FRAMETYPE_MSP_REQ :: u8 where
  "CRSF_FRAMETYPE_MSP_REQ = 0x7A"

definition CRSF_FRAMETYPE_MSP_WRITE :: u8 where
  "CRSF_FRAMETYPE_MSP_WRITE = 0x7C"

definition CRSF_FRAMETYPE_DISPLAYPORT_CMD :: u8 where
  "CRSF_FRAMETYPE_DISPLAYPORT_CMD = 0x7D"

definition RX_FRAME_PENDING :: u8 where
  "RX_FRAME_PENDING = 0"

definition RX_FRAME_COMPLETE :: u8 where
  "RX_FRAME_COMPLETE = 1"

subsection \<open>The checksums\<close>

text \<open>
  Modelled from the spec: \<^verbatim>\<open>crc8_dvb_s2\<close> and \<^verbatim>\<open>crc8_poly_0xba\<close> of \<^verbatim>\<open>common/crc.c\<close>,
  which is not among the sources. The spec names them as two byte-wise CRC-8 functions with
  distinct polynomials, the first the DVB-S2 one (\<open>0xD5\<close>); the second carries its
  polynomial in its name. Each takes the running checksum and one byte and shifts the
  byte through, most significant bit first. No theorem below depends on the polynomials.
\<close>

definition crc8_shift :: "u8 \<Rightarrow> u8 \<Rightarrow> u8" where
  "crc8_shift poly crc =
     (if crc AND 0x80 = 0 then push_bit 1 crc else push_bit 1 crc XOR poly)"

definition crc8_calc :: "u8 \<Rightarrow> u8 \<Rightarrow> u8 \<Rightarrow> u8" where
  "crc8_calc poly crc a = (crc8_shift poly ^^ 8) (crc XOR a)"

definition crc8_dvb_s2 :: "u8 \<Rightarrow> u8 \<Rightarrow> u8" where
  "crc8_dvb_s2 crc a = crc8_calc 0xD5 crc a"

definition crc8_poly_0xba :: "u8 \<Rightarrow> u8 \<Rightarrow> u8" where
  "crc8_poly_0xba crc a = crc8_calc 0xBA crc a"

subsection \<open>State, faults and calls\<close>

datatype crsfFault =
    FrameBufferOverrun nat    \<comment> \<open>a write to \<^verbatim>\<open>crsfFrame.bytes[i]\<close> with \<open>i \<ge> 64\<close>\<close>
  | FrameBufferOverread nat   \<comment> \<open>a read of a frame buffer at byte \<open>i \<ge> 64\<close>\<close>
  | ChannelDataOverrun nat    \<comment> \<open>a write to \<^verbatim>\<open>crsfChannelData[i]\<close> with \<open>i \<ge> 16\<close>\<close>
  | ChannelDataOverread nat   \<comment> \<open>a read of \<^verbatim>\<open>crsfChannelData[i]\<close> with \<open>i \<ge> 16\<close>\<close>

datatype crsfCall =
    Call_bufferCrsfMspFrame "u8 list"
  | Call_crsfScheduleMspResponse
  | Call_crsfScheduleDeviceInfoResponse
  | Call_crsfProcessDisplayPortCmd "u8 list"
  | Call_CRSFsetLQ u8
  | Call_CRSFsetRFMode u8
  | Call_CRSFsetSnR u8
  | Call_CRSFsetTXPower u8
  | Call_CRSFsetRSSI u8
  | Call_setRssi u16
  | Call_setRssiDbm u16
  | Call_setLinkQualityDirect u8
  | Call_crsfProcessCommand "u8 list"
  | Call_setCrsfDefaultSpeed

text \<open>
  What the code reads from other modules: the configured RSSI and link-quality sources, the
  receiver configuration flag, and the answer of \<^verbatim>\<open>bufferCrsfMspFrame\<close>.
\<close>

record crsfEnv =
  rssiSourceIsCrsf :: bool
  linkQualitySourceIsCrsf :: bool
  crsf_use_rx_snr :: bool
  bufferCrsfMspFrame :: "u8 list \<Rightarrow> bool"

record crsfState =
  crsfFrameDone :: bool
  crsfFrame :: "u8 list"
  crsfChannelDataFrame :: "u8 list"
  crsfChannelData :: "u32 list"
  crsfFrameStartAtUs :: u32
  crsfFramePosition :: u8
  crsfFrameErrorCnt :: u32
  lastLinkStatisticsFrameUs :: u32

text \<open>The statics as C initialises them.\<close>

definition crsfInit :: crsfState where
  "crsfInit = \<lparr> crsfFrameDone = False,
       crsfFrame = replicate 64 0,
       crsfChannelDataFrame = replicate 64 0,
       crsfChannelData = replicate 16 0,
       crsfFrameStartAtUs = 0,
       crsfFramePosition = 0,
       crsfFrameErrorCnt = 0,
       lastLinkStatisticsFrameUs = 0 \<rparr>"

definition crsfEnv0 :: crsfEnv where
  "crsfEnv0 = \<lparr> rssiSourceIsCrsf = True, linkQualitySourceIsCrsf = True,
       crsf_use_rx_snr = False, bufferCrsfMspFrame = (\<lambda>_. False) \<rparr>"

subsection \<open>crsfFrameCRC and crsfFrameCmdCRC\<close>

text \<open>
  The loops run \<open>ii\<close> from 0 while \<open>ii < frameLength - 2\<close> (in \<^verbatim>\<open>int\<close>, so not at all
  for a length below 2), folding the payload bytes \<open>bytes[3 + ii]\<close> into the checksum of
  the type byte.
\<close>

definition crsfFrameCRC :: "u8 list \<Rightarrow> crsfFault + u8" where
  "crsfFrameCRC buf =
     (let n = nat (uint (buf ! 1) - CRSF_FRAME_LENGTH_TYPE_CRC) in
      if 3 + n > length buf then Inl (FrameBufferOverread (length buf))
      else Inr (foldl crc8_dvb_s2 (crc8_dvb_s2 0 (buf ! 2)) (take n (drop 3 buf))))"

definition crsfFrameCmdCRC :: "u8 list \<Rightarrow> crsfFault + u8" where
  "crsfFrameCmdCRC buf =
     (let n = nat (uint (buf ! 1) - CRSF_FRAME_LENGTH_TYPE_CRC - 1) in
      if 3 + n > length buf then Inl (FrameBufferOverread (length buf))
      else Inr (foldl crc8_poly_0xba (crc8_poly_0xba 0 (buf ! 2)) (take n (drop 3 buf))))"

subsection \<open>The link statistics handlers\<close>

record crsfLinkStatistics =
  uplink_RSSI_1 :: u8
  uplink_RSSI_2 :: u8
  uplink_Link_quality :: u8
  uplink_SNR :: u8
  active_antenna :: u8
  rf_Mode :: u8
  uplink_TX_Power :: u8
  downlink_RSSI :: u8
  downlink_Link_quality :: u8
  downlink_SNR :: u8

record crsfLinkStatisticsTx =
  tx_uplink_RSSI :: u8
  tx_uplink_RSSI_percentage :: u8
  tx_uplink_Link_quality :: u8
  tx_uplink_SNR :: u8
  tx_downlink_power :: u8
  tx_uplink_FPS :: u8

text \<open>The casts of \<^verbatim>\<open>&crsfFrame.frame.payload\<close> to the two structs: the payload starts at byte 3.\<close>

definition crsfLinkStatisticsAt :: "u8 list \<Rightarrow> crsfLinkStatistics" where
  "crsfLinkStatisticsAt buf = \<lparr> uplink_RSSI_1 = buf ! 3, uplink_RSSI_2 = buf ! 4,
       uplink_Link_quality = buf ! 5, uplink_SNR = buf ! 6, active_antenna = buf ! 7,
       rf_Mode = buf ! 8, uplink_TX_Power = buf ! 9, downlink_RSSI = buf ! 10,
       downlink_Link_quality = buf ! 11, downlink_SNR = buf ! 12 \<rparr>"

definition crsfLinkStatisticsTxAt :: "u8 list \<Rightarrow> crsfLinkStatisticsTx" where
  "crsfLinkStatisticsTxAt buf = \<lparr> tx_uplink_RSSI = buf ! 3,
       tx_uplink_RSSI_percentage = buf ! 4, tx_uplink_Link_quality = buf ! 5,
       tx_uplink_SNR = buf ! 6, tx_downlink_power = buf ! 7, tx_uplink_FPS = buf ! 8 \<rparr>"

text \<open>
  \<^verbatim>\<open>uint8_t rssimin = MIN(stats.uplink_RSSI_1, stats.uplink_RSSI_2) * -1;\<close> the product is
  computed in \<^verbatim>\<open>int\<close> and converted to \<^verbatim>\<open>uint8_t\<close>, that is, reduced modulo 256.
\<close>

definition crsfRssiMin :: "u8 \<Rightarrow> u8 \<Rightarrow> u8" where
  "crsfRssiMin a b = word_of_int (min (uint a) (uint b) * (- 1))"

definition handleCrsfLinkStatisticsFrame :: "crsfLinkStatistics \<Rightarrow> crsfCall list" where
  "handleCrsfLinkStatisticsFrame stats =
     [Call_CRSFsetLQ (uplink_Link_quality stats),
      Call_CRSFsetRFMode (rf_Mode stats),
      Call_CRSFsetSnR (downlink_SNR stats),
      Call_CRSFsetTXPower (uplink_TX_Power stats),
      (if uplink_RSSI_1 stats = 0 then Call_CRSFsetRSSI (uplink_RSSI_2 stats)
       else if uplink_RSSI_2 stats = 0 then Call_CRSFsetRSSI (uplink_RSSI_1 stats)
       else Call_CRSFsetRSSI (crsfRssiMin (uplink_RSSI_1 stats) (uplink_RSSI_2 stats)))]"

definition handleCrsfLinkStatisticsTxFrame ::
  "crsfEnv \<Rightarrow> crsfLinkStatisticsTx \<Rightarrow> u32 \<Rightarrow> crsfState \<Rightarrow> crsfCall list \<times> crsfState" where
  "handleCrsfLinkStatisticsTxFrame env stats currentTimeUs s =
     (let rssiDbm0 = (word_of_int (- 1 * uint (tx_uplink_RSSI stats)) :: u16);
          rssiDbm = (if crsf_use_rx_snr env then scast (tx_uplink_SNR stats) else rssiDbm0)
      in ((if rssiSourceIsCrsf env
             then [Call_setRssi (ucast (tx_uplink_RSSI_percentage stats))] else [])
          @ [Call_setRssiDbm rssiDbm]
          @ (if linkQualitySourceIsCrsf env
               then [Call_setLinkQualityDirect (tx_uplink_Link_quality stats)] else []),
          s\<lparr>lastLinkStatisticsFrameUs := currentTimeUs\<rparr>))"

subsection \<open>crsfDataReceive\<close>

text \<open>
  The \<^verbatim>\<open>switch\<close> on the frame type (lines 296 to 359), entered for a frame whose CRC
  matched. \<^verbatim>\<open>frameStart\<close> and the argument of \<^verbatim>\<open>crsfProcessCommand\<close> point at
  \<^verbatim>\<open>payload + CRSF_FRAME_ORIGIN_DEST_SIZE\<close>, byte 5 of the buffer: the callee sees the buffer
  from there on. \<^verbatim>\<open>memcpy\<close> copies the whole union into the snapshot.
\<close>

definition crsfDispatch ::
  "crsfEnv \<Rightarrow> u32 \<Rightarrow> int \<Rightarrow> crsfState \<Rightarrow> crsfFault + (crsfCall list \<times> crsfState)" where
  "crsfDispatch env currentTimeUs fullFrameLength s =
     (let buf = crsfFrame s; ty = buf ! 2 in
      if ty = CRSF_FRAMETYPE_RC_CHANNELS_PACKED \<or> ty = CRSF_FRAMETYPE_SUBSET_RC_CHANNELS_PACKED then
        (if buf ! 0 = CRSF_ADDRESS_FLIGHT_CONTROLLER
         then Inr ([], s\<lparr>crsfFrameDone := True, crsfChannelDataFrame := buf\<rparr>)
         else Inr ([], s))
      else if ty = CRSF_FRAMETYPE_MSP_REQ \<or> ty = CRSF_FRAMETYPE_MSP_WRITE then
        (let frameStart = take CRSF_FRAME_RX_MSP_FRAME_SIZE
                            (drop (3 + CRSF_FRAME_ORIGIN_DEST_SIZE) buf) in
         if bufferCrsfMspFrame env frameStart
         then Inr ([Call_bufferCrsfMspFrame frameStart, Call_crsfScheduleMspResponse], s)
         else Inr ([Call_bufferCrsfMspFrame frameStart], s))
      else if ty = CRSF_FRAMETYPE_DEVICE_PING then
        Inr ([Call_crsfScheduleDeviceInfoResponse], s)
      else if ty = CRSF_FRAMETYPE_DISPLAYPORT_CMD then
        Inr ([Call_crsfProcessDisplayPortCmd (drop (3 + CRSF_FRAME_ORIGIN_DEST_SIZE) buf)], s)
      else if ty = CRSF_FRAMETYPE_LINK_STATISTICS then
        (if rssiSourceIsCrsf env \<and>
            unat (buf ! 1) = CRSF_FRAME_ORIGIN_DEST_SIZE + CRSF_FRAME_LINK_STATISTICS_PAYLOAD_SIZE
         then Inr (handleCrsfLinkStatisticsFrame (crsfLinkStatisticsAt buf), s)
         else Inr ([], s))
      else if ty = CRSF_FRAMETYPE_LINK_STATISTICS_RX then
        Inr ([], s)
      else if ty = CRSF_FRAMETYPE_LINK_STATISTICS_TX then
        (if rssiSourceIsCrsf env \<and> buf ! 0 = CRSF_ADDRESS_FLIGHT_CONTROLLER \<and>
            unat (buf ! 1) = CRSF_FRAME_ORIGIN_DEST_SIZE + CRSF_FRAME_LINK_STATISTICS_PAYLOAD_SIZE
         then Inr (handleCrsfLinkStatisticsTxFrame env (crsfLinkStatisticsTxAt buf) currentTimeUs s)
         else Inr ([], s))
      else if ty = CRSF_FRAMETYPE_COMMAND then
        (case crsfFrameCmdCRC buf of
           Inl e \<Rightarrow> Inl e
         | Inr cmdCrc \<Rightarrow>
             if buf ! nat (fullFrameLength - 2) = cmdCrc \<and> buf ! 3 = CRSF_ADDRESS_FLIGHT_CONTROLLER
             then Inr ([Call_crsfProcessCommand (drop (3 + CRSF_FRAME_ORIGIN_DEST_SIZE) buf)], s)
             else Inr ([], s))
      else Inr ([], s))"

text \<open>Lines 363/364 and 370/371: the counter stops at the threshold.\<close>

definition crsfFrameErrorCntInc :: "crsfState \<Rightarrow> crsfState" where
  "crsfFrameErrorCntInc s =
     (if crsfFrameErrorCnt s < CRSF_FRAME_ERROR_COUNT_THRESHOLD
      then s\<lparr>crsfFrameErrorCnt := crsfFrameErrorCnt s + 1\<rparr> else s)"

text \<open>Lines 375 to 379: the fallback to the default baud rate.\<close>

definition crsfErrorThreshold :: "crsfCall list \<times> crsfState \<Rightarrow> crsfCall list \<times> crsfState" where
  "crsfErrorThreshold r =
     (if crsfFrameErrorCnt (snd r) \<ge> CRSF_FRAME_ERROR_COUNT_THRESHOLD
      then (fst r @ [Call_setCrsfDefaultSpeed], (snd r)\<lparr>crsfFrameErrorCnt := 0\<rparr>)
      else r)"

text \<open>Line 276: the byte comes after the time a frame needs, in 32-bit unsigned arithmetic.\<close>

definition crsfFrameTimedOut :: "u32 \<Rightarrow> u32 \<Rightarrow> bool" where
  "crsfFrameTimedOut currentTimeUs startAtUs =
     (currentTimeUs > startAtUs + CRSF_TIME_NEEDED_PER_FRAME_US)"

text \<open>
  The receive callback, for the byte \<open>c\<close> and the value \<open>currentTimeUs\<close> that \<^verbatim>\<open>micros()\<close>
  returns. The \<^verbatim>\<open>else\<close> of line 368 belongs to the \<^verbatim>\<open>if\<close> of line 289: it is taken by
  every byte that is stored and does not complete the frame. A byte at a position at or
  beyond \<open>fullFrameLength\<close> changes nothing (the \<^verbatim>\<open>if\<close> of line 287 has no \<^verbatim>\<open>else\<close>).
\<close>

definition crsfDataReceive ::
  "crsfEnv \<Rightarrow> u32 \<Rightarrow> u16 \<Rightarrow> crsfState \<Rightarrow> crsfFault + (crsfCall list \<times> crsfState)" where
  "crsfDataReceive env currentTimeUs c s0 =
     (let s1 = (if crsfFrameTimedOut currentTimeUs (crsfFrameStartAtUs s0)
                then s0\<lparr>crsfFramePosition := 0\<rparr> else s0);
          s2 = (if crsfFramePosition s1 = 0
                then s1\<lparr>crsfFrameStartAtUs := currentTimeUs\<rparr> else s1);
          pos = crsfFramePosition s2;
          fullFrameLength = (if pos < 3 then 5
             else uint (crsfFrame s2 ! 1) + CRSF_FRAME_LENGTH_ADDRESS + CRSF_FRAME_LENGTH_FRAMELENGTH)
      in if uint pos < fullFrameLength then
           (if unat pos \<ge> CRSF_FRAME_SIZE_MAX then Inl (FrameBufferOverrun (unat pos))
            else
              let s3 = s2\<lparr>crsfFrame := (crsfFrame s2)[unat pos := ucast c],
                         crsfFramePosition := pos + 1\<rparr>
              in if uint (crsfFramePosition s3) \<ge> fullFrameLength then
                   (let s4 = s3\<lparr>crsfFramePosition := 0\<rparr> in
                    case crsfFrameCRC (crsfFrame s4) of
                      Inl e \<Rightarrow> Inl e
                    | Inr crc \<Rightarrow>
                        if crc = crsfFrame s4 ! nat (fullFrameLength - 1) then
                          (case crsfDispatch env currentTimeUs fullFrameLength
                                  (s4\<lparr>crsfFrameErrorCnt := 0\<rparr>) of
                             Inl e \<Rightarrow> Inl e
                           | Inr r \<Rightarrow> Inr (crsfErrorThreshold r))
                        else Inr (crsfErrorThreshold ([], crsfFrameErrorCntInc s4)))
                 else Inr (crsfErrorThreshold ([], crsfFrameErrorCntInc s3)))
         else Inr ([], s2))"

text \<open>
  The serial driver calls the callback once per received byte; a stream is the list of the
  bytes with the clock value at each call. The calls of all steps are collected in order;
  the first fault ends the run.
\<close>

fun crsfFeed ::
  "crsfEnv \<Rightarrow> crsfState \<Rightarrow> (u32 \<times> u16) list \<Rightarrow> crsfFault + (crsfCall list \<times> crsfState)" where
  "crsfFeed env s [] = Inr ([], s)"
| "crsfFeed env s (tc # rest) =
     (case crsfDataReceive env (fst tc) (snd tc) s of
        Inl e \<Rightarrow> Inl e
      | Inr r \<Rightarrow>
          (case crsfFeed env (snd r) rest of
             Inl e \<Rightarrow> Inl e
           | Inr r' \<Rightarrow> Inr (fst r @ fst r', snd r')))"

text \<open>
  The frame on the wire, as the header comment of the source gives it:
  \<^verbatim>\<open><Device address><Frame length><Type><Payload><CRC>\<close>, the length counting the type, the
  payload and the CRC byte. \<open>crsfTimed\<close> pairs the bytes of a frame with the clock values
  of their calls; the callback takes the byte as a \<^verbatim>\<open>uint16_t\<close>.
\<close>

definition crsfFrameBytes :: "u8 \<Rightarrow> u8 \<Rightarrow> u8 list \<Rightarrow> u8 \<Rightarrow> u8 list" where
  "crsfFrameBytes addr ty payload crc =
     addr # word_of_nat (length payload + 2) # ty # payload @ [crc]"

definition crsfTimed :: "u32 list \<Rightarrow> u8 list \<Rightarrow> (u32 \<times> u16) list" where
  "crsfTimed ts bs = zip ts (map ucast bs)"

subsection \<open>crsfFrameStatus and crsfReadRawRC\<close>

text \<open>
  Bit \<open>k\<close> of the payload of a frame buffer, the payload read as a little-endian bit
  stream: bit \<open>k mod 8\<close> of payload byte \<open>k div 8\<close>. A field of
  \<^verbatim>\<open>crsfPayloadRcChannelsPacked_t\<close> is eleven consecutive bits of that stream (the layout
  of the packed bit-field struct on the little-endian targets of the firmware).
\<close>

definition crsfPayloadBit :: "u8 list \<Rightarrow> nat \<Rightarrow> bool" where
  "crsfPayloadBit buf k = bit (buf ! (3 + k div 8)) (k mod 8)"

definition crsfPackedField :: "u8 list \<Rightarrow> nat \<Rightarrow> u32" where
  "crsfPackedField buf off =
     horner_sum of_bool 2 (map (\<lambda>i. crsfPayloadBit buf (off + i)) [0..<11])"

text \<open>Lines 393 to 408: \<^verbatim>\<open>crsfChannelData[k] = rcChannels->chank\<close> for \<open>k\<close> from 0 to 15.\<close>

definition crsfUnpackFixed :: "u8 list \<Rightarrow> u32 list \<Rightarrow> u32 list" where
  "crsfUnpackFixed buf cd = foldl (\<lambda>cd k. cd[k := crsfPackedField buf (11 * k)]) cd [0..<16]"

text \<open>
  Line 420: the channel count, computed in \<^verbatim>\<open>int\<close> with C's division (towards zero) and
  converted to \<^verbatim>\<open>uint8_t\<close>.
\<close>

definition crsfSubsetNumOfChannels :: "u8 \<Rightarrow> u8" where
  "crsfSubsetNumOfChannels frameLength =
     word_of_int (((uint frameLength - CRSF_FRAME_LENGTH_TYPE_CRC) * 8
        - int CRSF_SUBSET_RC_CHANNELS_PACKED_STARTING_CHANNEL_RESOLUTION)
        sdiv int CRSF_SUBSET_RC_CHANNELS_PACKED_RESOLUTION)"

text \<open>
  The \<^verbatim>\<open>while\<close> loop of lines 422 to 435 over the locals \<open>readByteIndex\<close>, \<open>bitsMerged\<close>,
  \<open>readValue\<close> and \<open>startChannel\<close>: it merges payload bytes into the accumulator until it
  holds eleven bits.
\<close>

function crsfSubsetMerge ::
  "u8 list \<Rightarrow> u8 \<Rightarrow> u8 \<Rightarrow> u32 \<Rightarrow> u8 \<Rightarrow> crsfFault + (u8 \<times> u8 \<times> u32 \<times> u8)" where
  "crsfSubsetMerge buf readByteIndex bitsMerged readValue startChannel =
     (if bitsMerged < 11 then
        (if 3 + unat readByteIndex \<ge> length buf
         then Inl (FrameBufferOverread (3 + unat readByteIndex))
         else if startChannel = 0xFF then
           crsfSubsetMerge buf (readByteIndex + 1) (bitsMerged + (8 - 5))
             (readValue OR push_bit (unat bitsMerged)
                (ucast (drop_bit 5 (buf ! (3 + unat readByteIndex)))))
             (buf ! (3 + unat readByteIndex) AND CRSF_SUBSET_RC_CHANNELS_PACKED_STARTING_CHANNEL_MASK)
         else
           crsfSubsetMerge buf (readByteIndex + 1) (bitsMerged + 8)
             (readValue OR push_bit (unat bitsMerged) (ucast (buf ! (3 + unat readByteIndex))))
             startChannel)
      else Inr (readByteIndex, bitsMerged, readValue, startChannel))"
  by pat_completeness auto
termination
proof (relation "measure (\<lambda>(buf, readByteIndex, bitsMerged, readValue, startChannel). 11 - unat bitsMerged)")
  show "wf (measure (\<lambda>(buf, readByteIndex, bitsMerged, readValue, startChannel). 11 - unat bitsMerged))"
    by simp
next
  fix buf :: "u8 list" and readByteIndex bitsMerged :: u8 and readValue :: u32 and startChannel :: u8
  assume "bitsMerged < 11"
  then have "unat bitsMerged < 11" by (simp add: word_less_nat_alt)
  then have "unat (bitsMerged + (8 - 5)) = unat bitsMerged + 3"
    by (simp add: unat_word_ariths)
  with \<open>unat bitsMerged < 11\<close>
  show "((buf, readByteIndex + 1, bitsMerged + (8 - 5),
          readValue OR push_bit (unat bitsMerged) (ucast (drop_bit 5 (buf ! (3 + unat readByteIndex)))),
          buf ! (3 + unat readByteIndex) AND CRSF_SUBSET_RC_CHANNELS_PACKED_STARTING_CHANNEL_MASK),
         (buf, readByteIndex, bitsMerged, readValue, startChannel))
        \<in> measure (\<lambda>(buf, readByteIndex, bitsMerged, readValue, startChannel). 11 - unat bitsMerged)"
    by simp
next
  fix buf :: "u8 list" and readByteIndex bitsMerged :: u8 and readValue :: u32 and startChannel :: u8
  assume "bitsMerged < 11"
  then have "unat bitsMerged < 11" by (simp add: word_less_nat_alt)
  then have "unat (bitsMerged + 8) = unat bitsMerged + 8"
    by (simp add: unat_word_ariths)
  with \<open>unat bitsMerged < 11\<close>
  show "((buf, readByteIndex + 1, bitsMerged + 8,
          readValue OR push_bit (unat bitsMerged) (ucast (buf ! (3 + unat readByteIndex))),
          startChannel),
         (buf, readByteIndex, bitsMerged, readValue, startChannel))
        \<in> measure (\<lambda>(buf, readByteIndex, bitsMerged, readValue, startChannel). 11 - unat bitsMerged)"
    by simp
qed

declare crsfSubsetMerge.simps [simp del]

text \<open>
  The \<^verbatim>\<open>for\<close> loop of lines 421 to 439 over \<open>n\<close>: each round fills the accumulator, writes
  its low eleven bits to \<^verbatim>\<open>crsfChannelData[startChannel + n]\<close> (the index is computed in
  \<^verbatim>\<open>int\<close>) and shifts them out.
\<close>

function crsfSubsetUnpack ::
  "u8 list \<Rightarrow> u8 \<Rightarrow> u8 \<Rightarrow> u8 \<Rightarrow> u8 \<Rightarrow> u32 \<Rightarrow> u8 \<Rightarrow> u32 list \<Rightarrow> crsfFault + u32 list" where
  "crsfSubsetUnpack buf numOfChannels n readByteIndex bitsMerged readValue startChannel cd =
     (if n < numOfChannels then
        (case crsfSubsetMerge buf readByteIndex bitsMerged readValue startChannel of
           Inl e \<Rightarrow> Inl e
         | Inr (readByteIndex', bitsMerged', readValue', startChannel') \<Rightarrow>
             if unat startChannel' + unat n \<ge> CRSF_MAX_CHANNEL
             then Inl (ChannelDataOverrun (unat startChannel' + unat n))
             else crsfSubsetUnpack buf numOfChannels (n + 1) readByteIndex'
                    (bitsMerged' - 11) (drop_bit 11 readValue') startChannel'
                    (cd[unat startChannel' + unat n :=
                          readValue' AND CRSF_SUBSET_RC_CHANNELS_PACKED_MASK]))
      else Inr cd)"
  by pat_completeness auto
termination
proof (relation "measure (\<lambda>(buf, numOfChannels, n, rest). unat numOfChannels - unat n)")
  show "wf (measure (\<lambda>(buf, numOfChannels, n, rest). unat numOfChannels - unat n))"
    by simp
next
  fix buf :: "u8 list" and numOfChannels n readByteIndex bitsMerged :: u8
    and readValue :: u32 and startChannel :: u8 and cd :: "u32 list"
    and x2 :: "u8 \<times> u8 \<times> u32 \<times> u8" and x1 :: u8 and x2a :: "u8 \<times> u32 \<times> u8"
    and x1a :: u8 and x2b :: "u32 \<times> u8" and x1b :: u32 and x2c :: u8
  assume "n < numOfChannels"
  then have lt: "unat n < unat numOfChannels" by (simp add: word_less_nat_alt)
  have "unat numOfChannels < 256" using unsigned_less [of numOfChannels, where ?'a = nat] by simp
  with lt have "unat (n + 1) = unat n + 1"
    by (simp add: unat_word_ariths)
  with lt
  show "((buf, numOfChannels, n + 1, x1, x1a - 11, drop_bit 11 x1b, x2c,
          cd[unat x2c + unat n := x1b AND CRSF_SUBSET_RC_CHANNELS_PACKED_MASK]),
         (buf, numOfChannels, n, readByteIndex, bitsMerged, readValue, startChannel, cd))
        \<in> measure (\<lambda>(buf, numOfChannels, n, rest). unat numOfChannels - unat n)"
    by simp
qed

declare crsfSubsetUnpack.simps [simp del]

text \<open>
  The poll. With the latch set it clears the latch and unpacks the snapshot: a frame of
  type \<^verbatim>\<open>CRSF_FRAMETYPE_RC_CHANNELS_PACKED\<close> by the fixed layout, any other by the subset
  loop, whose locals start at \<open>readByteIndex = 0\<close>, \<open>bitsMerged = 0\<close>, \<open>readValue = 0\<close> and
  \<open>startChannel = 0xFF\<close>.
\<close>

definition crsfFrameStatus :: "crsfState \<Rightarrow> crsfFault + (u8 \<times> crsfState)" where
  "crsfFrameStatus s =
     (if crsfFrameDone s then
        (let s1 = s\<lparr>crsfFrameDone := False\<rparr>; buf = crsfChannelDataFrame s1 in
         if buf ! 2 = CRSF_FRAMETYPE_RC_CHANNELS_PACKED then
           Inr (RX_FRAME_COMPLETE, s1\<lparr>crsfChannelData := crsfUnpackFixed buf (crsfChannelData s1)\<rparr>)
         else
           (case crsfSubsetUnpack buf (crsfSubsetNumOfChannels (buf ! 1)) 0 0 0 0 0xFF
                   (crsfChannelData s1) of
              Inl e \<Rightarrow> Inl e
            | Inr cd \<Rightarrow> Inr (RX_FRAME_COMPLETE, s1\<lparr>crsfChannelData := cd\<rparr>)))
      else Inr (RX_FRAME_PENDING, s))"

text \<open>
  Line 449: \<^verbatim>\<open>crsfChannelData[chan]\<close> is a \<^verbatim>\<open>uint32_t\<close>, so the subtraction, the product
  and the division are unsigned 32-bit operations; the result is cut to \<^verbatim>\<open>uint16_t\<close>.
\<close>

definition crsfReadRawRC :: "crsfState \<Rightarrow> u8 \<Rightarrow> crsfFault + u16" where
  "crsfReadRawRC s chan =
     (if unat chan \<ge> CRSF_MAX_CHANNEL then Inl (ChannelDataOverread (unat chan))
      else Inr (ucast ((crsfChannelData s ! unat chan - 992) * 5 div 8 + 1500)))"

subsection \<open>The invariant of the subset loop\<close>

text \<open>
  The accumulator between two reads: \<open>readValue\<close> holds the \<open>bitsMerged\<close> bits of the
  payload stream that start at bit \<open>off\<close>, all payload bytes before \<open>readByteIndex\<close> are
  consumed, and the starting channel has been read.
\<close>

definition crsfSubsetInv :: "u8 list \<Rightarrow> nat \<Rightarrow> u8 \<Rightarrow> u8 \<Rightarrow> u32 \<Rightarrow> u8 \<Rightarrow> bool" where
  "crsfSubsetInv buf off readByteIndex bitsMerged readValue startChannel \<longleftrightarrow>
     startChannel = buf ! 3 AND 0x1F \<and>
     8 * unat readByteIndex = off + unat bitsMerged \<and>
     unat bitsMerged \<le> 18 \<and>
     (\<forall>i. bit readValue i \<longleftrightarrow> i < unat bitsMerged \<and> crsfPayloadBit buf (off + i))"

section \<open>Properties\<close>

subsection \<open>The pulse width of a channel\<close>

lemma crsfReadRawRC_arith:
  assumes "0 \<le> (x::int)" "x < 2048"
  shows "((x - 992) mod 2 ^ 32 * 5 mod 2 ^ 32 div 8 + 1500) mod 2 ^ 32 mod 2 ^ 16
           = (x - 992) * 5 div 8 + 1500"
proof (cases "992 \<le> x")
  case True
  define y where "y = x - 992"
  have y: "0 \<le> y" "y < 1056" using True assms by (simp_all add: y_def)
  have q: "0 \<le> y * 5 div 8" "y * 5 div 8 < 700" using y by simp_all
  have 1: "y mod 2 ^ 32 = y" using y by simp
  have 2: "y * 5 mod 2 ^ 32 = y * 5" using y by simp
  have 3: "(y * 5 div 8 + 1500) mod 2 ^ 32 = y * 5 div 8 + 1500" using q by simp
  have 4: "(y * 5 div 8 + 1500) mod 2 ^ 16 = y * 5 div 8 + 1500" using q by simp
  show ?thesis unfolding y_def [symmetric] 1 2 3 4 ..
next
  case False
  define z where "z = 992 - x"
  have z: "0 < z" "z \<le> 992" using False assms by (simp_all add: z_def)
  have xz: "x - 992 = - z" by (simp add: z_def)
  define q where "q = (- z) * 5 div 8"
  have q: "- 620 \<le> q" "q < 0" using z by (simp_all add: q_def)
  have 1: "(- z) mod 2 ^ 32 = 2 ^ 32 - z"
    by (rule int_mod_pos_eq [where q = "- 1"]) (use z in simp_all)
  have 2: "(2 ^ 32 - z) * 5 mod 2 ^ 32 = 2 ^ 32 - z * 5"
    by (rule int_mod_pos_eq [where q = 4]) (use z in simp_all)
  have 3: "(2 ^ 32 - z * 5) div 8 = 2 ^ 29 + q"
  proof -
    have "(2 ^ 32 - z * 5) = (- z) * 5 + 2 ^ 29 * 8" by simp
    then have "(2 ^ 32 - z * 5) div 8 = ((- z) * 5 + 2 ^ 29 * 8) div 8" by simp
    also have "\<dots> = 2 ^ 29 + (- z) * 5 div 8" by (rule div_mult_self1) simp
    finally show ?thesis by (simp add: q_def)
  qed
  have 4: "(2 ^ 29 + q + 1500) mod 2 ^ 32 = 2 ^ 29 + q + 1500" using q by simp
  have 5: "(2 ^ 29 + q + 1500) mod 2 ^ 16 = q + 1500"
    by (rule int_mod_pos_eq [where q = "2 ^ 13"]) (use q in simp_all)
  show ?thesis unfolding xz 1 2 3 4 5 unfolding q_def ..
qed

lemma crsfReadRawRC_word:
  assumes lt: "uint (v::u32) < 2048"
  shows "uint (ucast ((v - 992) * 5 div 8 + 1500) :: u16) = (uint v - 992) * 5 div 8 + 1500"
proof -
  define a where "a = v - 992"
  define b where "b = a * 5"
  define c where "c = b div 8"
  define d where "d = c + 1500"
  have a: "uint a = (uint v - 992) mod 2 ^ 32"
    unfolding a_def by (simp add: uint_word_ariths)
  have b: "uint b = (uint a * 5) mod 2 ^ 32"
    unfolding b_def by (simp add: uint_word_ariths)
  have c: "uint c = uint b div 8"
    unfolding c_def by (simp add: uint_div)
  have d: "uint d = (uint c + 1500) mod 2 ^ 32"
    unfolding d_def by (simp add: uint_word_ariths)
  have e: "uint (ucast d :: u16) = uint d mod 2 ^ 16"
    by (simp add: unsigned_ucast_eq take_bit_eq_mod)
  have "uint (ucast d :: u16) = (uint v - 992) * 5 div 8 + 1500"
    unfolding e d c b a using lt by (intro crsfReadRawRC_arith) simp_all
  then show ?thesis by (simp add: d_def c_def b_def a_def)
qed

text \<open>
  Claim C8. For a channel index inside the array and a stored value \<open>v\<close> of the 11-bit
  domain, \<^verbatim>\<open>crsfReadRawRC\<close> returns \<open>(v - 992) * 5 / 8 + 1500\<close>, the quotient rounded down
  (for \<open>v < 992\<close> the unsigned subtraction wraps around and the division and the cut to 16
  bits land on the rounded-down value). So 992 gives 1500, 172 gives 987 and 1811 gives
  2011, each within one of the 988 and 2012 the claim names as approximate.
\<close>

theorem crsfReadRawRC_pulse_width:
  assumes chan: "unat chan < CRSF_MAX_CHANNEL"
    and v: "uint (crsfChannelData s ! unat chan) < 2048"
  shows "\<exists>pw. crsfReadRawRC s chan = Inr pw \<and>
           uint pw = (uint (crsfChannelData s ! unat chan) - 992) * 5 div 8 + 1500 \<and>
           (crsfChannelData s ! unat chan = 992 \<longrightarrow> pw = 1500) \<and>
           (crsfChannelData s ! unat chan = 172 \<longrightarrow> pw = 987) \<and>
           (crsfChannelData s ! unat chan = 1811 \<longrightarrow> pw = 2011)"
proof -
  define pw :: u16 where "pw = ucast ((crsfChannelData s ! unat chan - 992) * 5 div 8 + 1500)"
  have r: "crsfReadRawRC s chan = Inr pw"
    using chan by (simp add: crsfReadRawRC_def pw_def)
  have f: "uint pw = (uint (crsfChannelData s ! unat chan) - 992) * 5 div 8 + 1500"
    unfolding pw_def by (rule crsfReadRawRC_word [OF v])
  have "crsfChannelData s ! unat chan = 992 \<longrightarrow> pw = 1500"
    by (simp add: pw_def)
  moreover have "crsfChannelData s ! unat chan = 172 \<longrightarrow> pw = 987"
    by (simp add: pw_def)
  moreover have "crsfChannelData s ! unat chan = 1811 \<longrightarrow> pw = 2011"
    by (simp add: pw_def)
  ultimately show ?thesis using r f by blast
qed

theorem crsfReadRawRC_pulse_width_witness:
  "crsfReadRawRC (crsfInit\<lparr>crsfChannelData := [992, 172, 1811] @ replicate 13 0\<rparr>) 1 = Inr 987"
  using crsfReadRawRC_pulse_width [of 1 "crsfInit\<lparr>crsfChannelData := [992, 172, 1811] @ replicate 13 0\<rparr>"]
  by (simp add: CRSF_MAX_CHANNEL_def)

subsection \<open>Polling twice\<close>

text \<open>
  Claim C10. A poll with the latch clear returns \<open>RX_FRAME_PENDING\<close> and changes nothing
  (no field of the state, so no channel value): a poll that returned pending leaves the
  state in which the next poll returns pending again. A poll that returns
  \<open>RX_FRAME_COMPLETE\<close> found the latch set and leaves it clear, so the poll after it
  returns pending. The two status values differ.
\<close>

theorem crsfFrameStatus_pending:
  "(\<not> crsfFrameDone s \<longrightarrow>
      crsfFrameStatus s = Inr (RX_FRAME_PENDING, s)) \<and>
   (crsfFrameStatus s = Inr (RX_FRAME_PENDING, s') \<longrightarrow>
      s' = s \<and> crsfFrameStatus s' = Inr (RX_FRAME_PENDING, s')) \<and>
   (crsfFrameStatus s = Inr (RX_FRAME_COMPLETE, s') \<longrightarrow>
      crsfFrameDone s \<and> \<not> crsfFrameDone s' \<and>
      crsfFrameStatus s' = Inr (RX_FRAME_PENDING, s')) \<and>
   RX_FRAME_PENDING \<noteq> RX_FRAME_COMPLETE"
  by (auto simp: crsfFrameStatus_def RX_FRAME_PENDING_def RX_FRAME_COMPLETE_def Let_def
           split: if_splits sum.splits)

theorem crsfFrameStatus_pending_witness:
  "crsfFrameStatus crsfInit = Inr (RX_FRAME_PENDING, crsfInit) \<and>
   crsfFrameStatus
     (crsfInit\<lparr>crsfFrameDone := True,
        crsfChannelDataFrame := [0xC8, 6, 0x17, 0x84, 0x0C, 0xD0, 0x07, 0] @ replicate 56 0\<rparr>)
     = Inr (RX_FRAME_COMPLETE,
        crsfInit\<lparr>crsfChannelDataFrame := [0xC8, 6, 0x17, 0x84, 0x0C, 0xD0, 0x07, 0] @ replicate 56 0,
          crsfChannelData := replicate 4 0 @ [100, 2000] @ replicate 10 0\<rparr>) \<and>
   crsfFrameStatus
     (crsfInit\<lparr>crsfChannelDataFrame := [0xC8, 6, 0x17, 0x84, 0x0C, 0xD0, 0x07, 0] @ replicate 56 0,
        crsfChannelData := replicate 4 0 @ [100, 2000] @ replicate 10 0\<rparr>)
     = Inr (RX_FRAME_PENDING,
        crsfInit\<lparr>crsfChannelDataFrame := [0xC8, 6, 0x17, 0x84, 0x0C, 0xD0, 0x07, 0] @ replicate 56 0,
          crsfChannelData := replicate 4 0 @ [100, 2000] @ replicate 10 0\<rparr>)"
proof -
  let ?buf = "[0xC8, 6, 0x17, 0x84, 0x0C, 0xD0, 0x07, 0] @ replicate 56 (0::u8)"
  let ?s = "crsfInit\<lparr>crsfFrameDone := True, crsfChannelDataFrame := ?buf\<rparr>"
  let ?s' = "crsfInit\<lparr>crsfChannelDataFrame := ?buf,
               crsfChannelData := replicate 4 0 @ [100, 2000] @ replicate 10 0\<rparr>"
  have idle: "\<not> crsfFrameDone crsfInit" by (simp add: crsfInit_def)
  have poll: "crsfFrameStatus ?s = Inr (RX_FRAME_COMPLETE, ?s')" by code_simp
  from crsfFrameStatus_pending [of crsfInit crsfInit] idle
  have "crsfFrameStatus crsfInit = Inr (RX_FRAME_PENDING, crsfInit)" by blast
  moreover from crsfFrameStatus_pending [of ?s ?s'] poll
  have "crsfFrameStatus ?s' = Inr (RX_FRAME_PENDING, ?s')" by blast
  ultimately show ?thesis using poll by blast
qed

subsection \<open>The RSSI of a link statistics frame\<close>

text \<open>
  The calls of the handler: link quality, RF mode, SNR and TX power are forwarded as they
  are; the RSSI forwarded is the second antenna's reading when the first is 0, the first
  antenna's when the second is 0, and otherwise the byte that line 215 stores in the
  \<^verbatim>\<open>uint8_t rssimin\<close>, which is \<open>256 - min\<close> of the two readings.
\<close>

lemma handleCrsfLinkStatisticsFrame_calls:
  "handleCrsfLinkStatisticsFrame stats =
     [Call_CRSFsetLQ (uplink_Link_quality stats), Call_CRSFsetRFMode (rf_Mode stats),
      Call_CRSFsetSnR (downlink_SNR stats), Call_CRSFsetTXPower (uplink_TX_Power stats),
      Call_CRSFsetRSSI
        (if uplink_RSSI_1 stats = 0 then uplink_RSSI_2 stats
         else if uplink_RSSI_2 stats = 0 then uplink_RSSI_1 stats
         else word_of_nat (256 - min (unat (uplink_RSSI_1 stats)) (unat (uplink_RSSI_2 stats))))] \<and>
   last (handleCrsfLinkStatisticsFrame (stats\<lparr>uplink_RSSI_1 := 0, uplink_RSSI_2 := 40\<rparr>))
     = Call_CRSFsetRSSI 40 \<and>
   last (handleCrsfLinkStatisticsFrame (stats\<lparr>uplink_RSSI_1 := 30, uplink_RSSI_2 := 0\<rparr>))
     = Call_CRSFsetRSSI 30 \<and>
   last (handleCrsfLinkStatisticsFrame (stats\<lparr>uplink_RSSI_1 := 20, uplink_RSSI_2 := 50\<rparr>))
     = Call_CRSFsetRSSI 236 \<and>
   uint (236 :: u8) = 236 \<and> sint (236 :: u8) = - 20"
proof -
  have sub: "(word_of_nat (256 - n) :: u8) = - word_of_nat n" if "n \<le> 256" for n
    using that by (simp add: of_nat_diff)
  have neg: "crsfRssiMin a b = word_of_nat (256 - min (unat a) (unat b))" for a b
  proof -
    have le: "min (unat a) (unat b) \<le> 256"
      using unsigned_less [of a, where ?'a = nat] by simp
    have "min (uint a) (uint b) = int (min (unat a) (unat b))"
      by (simp only: of_nat_min uint_nat)
    then have "crsfRssiMin a b = - (word_of_nat (min (unat a) (unat b)) :: u8)"
      by (simp add: crsfRssiMin_def)
    then show ?thesis
      by (simp only: sub [OF le])
  qed
  show ?thesis
    by (simp add: handleCrsfLinkStatisticsFrame_def neg)
qed

text \<open>
  Claim C7 at a failing input. With a reading of 0 on one antenna the handler forwards the
  other reading: \<open>(0, 40)\<close> forward 40 and \<open>(30, 0)\<close> forward 30. With two non-zero
  readings line 215 computes the negated minimum, \<^verbatim>\<open>MIN(...) * -1\<close>, in \<^verbatim>\<open>int\<close> and stores it
  in the \<^verbatim>\<open>uint8_t rssimin\<close>: for \<open>(20, 50)\<close> the handler forwards the unsigned byte 236,
  not \<open>-20\<close>, and for \<open>(200, 250)\<close> it forwards 56, which is \<open>-200\<close> under neither
  reading of the byte. The handler of the TX statistics frame keeps the same negation in an
  \<^verbatim>\<open>int16_t\<close> (line 225): for the reading 200 it forwards the 16-bit value that reads
  \<open>-200\<close>.
\<close>

theorem handleCrsfLinkStatisticsFrame_rssi_wraps:
  "last (handleCrsfLinkStatisticsFrame \<lparr> uplink_RSSI_1 = 0, uplink_RSSI_2 = 40,
       uplink_Link_quality = 100, uplink_SNR = 0, active_antenna = 0, rf_Mode = 2,
       uplink_TX_Power = 1, downlink_RSSI = 0, downlink_Link_quality = 0, downlink_SNR = 0 \<rparr>)
     = Call_CRSFsetRSSI 40 \<and>
   last (handleCrsfLinkStatisticsFrame \<lparr> uplink_RSSI_1 = 30, uplink_RSSI_2 = 0,
       uplink_Link_quality = 100, uplink_SNR = 0, active_antenna = 0, rf_Mode = 2,
       uplink_TX_Power = 1, downlink_RSSI = 0, downlink_Link_quality = 0, downlink_SNR = 0 \<rparr>)
     = Call_CRSFsetRSSI 30 \<and>
   last (handleCrsfLinkStatisticsFrame \<lparr> uplink_RSSI_1 = 20, uplink_RSSI_2 = 50,
       uplink_Link_quality = 100, uplink_SNR = 0, active_antenna = 0, rf_Mode = 2,
       uplink_TX_Power = 1, downlink_RSSI = 0, downlink_Link_quality = 0, downlink_SNR = 0 \<rparr>)
     = Call_CRSFsetRSSI 236 \<and>
   uint (236 :: u8) \<noteq> - min 20 50 \<and>
   last (handleCrsfLinkStatisticsFrame \<lparr> uplink_RSSI_1 = 200, uplink_RSSI_2 = 250,
       uplink_Link_quality = 100, uplink_SNR = 0, active_antenna = 0, rf_Mode = 2,
       uplink_TX_Power = 1, downlink_RSSI = 0, downlink_Link_quality = 0, downlink_SNR = 0 \<rparr>)
     = Call_CRSFsetRSSI 56 \<and>
   uint (56 :: u8) \<noteq> - min 200 250 \<and> sint (56 :: u8) \<noteq> - min 200 250 \<and>
   fst (handleCrsfLinkStatisticsTxFrame crsfEnv0
          \<lparr> tx_uplink_RSSI = 200, tx_uplink_RSSI_percentage = 50, tx_uplink_Link_quality = 100,
            tx_uplink_SNR = 0, tx_downlink_power = 0, tx_uplink_FPS = 0 \<rparr> 0 crsfInit)
     = [Call_setRssi 50, Call_setRssiDbm (- 200), Call_setLinkQualityDirect 100] \<and>
   sint (- 200 :: u16) = - min 200 250"
  by (simp add: handleCrsfLinkStatisticsFrame_def crsfRssiMin_def
        handleCrsfLinkStatisticsTxFrame_def crsfEnv0_def)

subsection \<open>Resynchronisation on timeout\<close>

lemma crsfFrameTimedOut_iff:
  "crsfFrameTimedOut currentTimeUs startAtUs \<longleftrightarrow>
     (unat startAtUs + 1100) mod 2 ^ 32 < unat currentTimeUs"
  by (simp add: crsfFrameTimedOut_def CRSF_TIME_NEEDED_PER_FRAME_US_def word_less_nat_alt
        unat_word_ariths)

lemma crsfFrameTimedOut_later:
  assumes "unat startAtUs + 1100 < unat currentTimeUs"
  shows "crsfFrameTimedOut currentTimeUs startAtUs"
proof -
  have "unat currentTimeUs < 2 ^ 32"
    using unsigned_less [of currentTimeUs, where ?'a = nat] by simp
  with assms have "(unat startAtUs + 1100) mod 2 ^ 32 = unat startAtUs + 1100"
    by simp
  with assms show ?thesis by (simp only: crsfFrameTimedOut_iff)
qed

text \<open>
  Claim C4 as the code has it. A byte whose timestamp is more than 1100 microseconds after
  the recorded start of the frame (the two compared as unsigned numbers, without
  wrap-around) discards the partial frame: the byte is stored at index 0 as the first byte
  of a new frame, the position becomes 1 and the start time becomes the byte's timestamp.
  The latch and the snapshot are untouched and the only call the step can make is the baud
  rate fallback.
\<close>

theorem crsfDataReceive_timeout_resync:
  assumes "unat (crsfFrameStartAtUs s) + 1100 < unat currentTimeUs"
  shows "\<exists>calls s'. crsfDataReceive env currentTimeUs c s = Inr (calls, s') \<and>
           crsfFramePosition s' = 1 \<and>
           crsfFrameStartAtUs s' = currentTimeUs \<and>
           crsfFrame s' = (crsfFrame s)[0 := ucast c] \<and>
           crsfFrameDone s' = crsfFrameDone s \<and>
           crsfChannelDataFrame s' = crsfChannelDataFrame s \<and>
           set calls \<subseteq> {Call_setCrsfDefaultSpeed}"
  using crsfFrameTimedOut_later [OF assms]
  by (simp add: crsfDataReceive_def Let_def CRSF_FRAME_SIZE_MAX_def crsfErrorThreshold_def
        crsfFrameErrorCntInc_def)

theorem crsfDataReceive_timeout_resync_witness:
  "\<exists>calls s'. crsfDataReceive crsfEnv0 1101 0xC8 (crsfInit\<lparr>crsfFramePosition := 2\<rparr>) = Inr (calls, s') \<and>
     crsfFramePosition s' = 1 \<and> crsfFrameStartAtUs s' = 1101 \<and>
     crsfFrame s' = 0xC8 # replicate 63 0"
proof -
  have "unat (crsfFrameStartAtUs (crsfInit\<lparr>crsfFramePosition := 2\<rparr>)) + 1100 < unat (1101 :: u32)"
    by (simp add: crsfInit_def)
  from crsfDataReceive_timeout_resync [OF this, of crsfEnv0 "0xC8"]
  obtain calls s' where
    "crsfDataReceive crsfEnv0 1101 0xC8 (crsfInit\<lparr>crsfFramePosition := 2\<rparr>) = Inr (calls, s')"
    "crsfFramePosition s' = 1" "crsfFrameStartAtUs s' = 1101"
    "crsfFrame s' = (crsfFrame (crsfInit\<lparr>crsfFramePosition := 2\<rparr>))[0 := ucast (0xC8 :: u16)]"
    by blast
  moreover have "(crsfFrame (crsfInit\<lparr>crsfFramePosition := 2\<rparr>))[0 := ucast (0xC8 :: u16)]
      = 0xC8 # replicate 63 0"
    by code_simp
  ultimately show ?thesis by simp
qed

text \<open>
  Claim C4 as stated fails at exactly 1100 microseconds: the third byte of a frame that
  started at time 0, arriving at time 1100, is stored at index 2 (the position becomes 3)
  and the start time stays 0.
\<close>

theorem crsfDataReceive_timeout_counterexample:
  "case crsfFeed crsfEnv0 crsfInit [(0, 0xC8), (0, 0x18), (1100, 0x16)] of
     Inl e \<Rightarrow> False
   | Inr r \<Rightarrow> crsfFramePosition (snd r) = 3 \<and> crsfFrameStartAtUs (snd r) = 0 \<and>
       take 3 (crsfFrame (snd r)) = [0xC8, 0x18, 0x16]"
  by code_simp

subsection \<open>The error counter\<close>

text \<open>
  Claim C6 at a failing input. The first byte of a frame, received in the initial state,
  raises the error counter to 1 though no frame has failed: the \<^verbatim>\<open>else\<close> of line 368
  counts every stored byte that does not complete a frame. After the three header bytes of
  a frame whose length byte is 0 (a bad length) the fourth byte is ignored and not counted:
  the counter stays at 3, one for each header byte.
\<close>

theorem crsfDataReceive_counts_stored_bytes:
  "crsfDataReceive crsfEnv0 0 0xC8 crsfInit =
     Inr ([], crsfInit\<lparr>crsfFrame := 0xC8 # replicate 63 0, crsfFramePosition := 1,
                 crsfFrameErrorCnt := 1\<rparr>) \<and>
   crsfFeed crsfEnv0 crsfInit [(0, 0xC8), (0, 0x00), (0, 0x16)] =
     Inr ([], crsfInit\<lparr>crsfFrame := [0xC8, 0x00, 0x16] @ replicate 61 0, crsfFramePosition := 3,
                 crsfFrameErrorCnt := 3\<rparr>) \<and>
   crsfFeed crsfEnv0 crsfInit [(0, 0xC8), (0, 0x00), (0, 0x16), (0, 0x55)] =
     Inr ([], crsfInit\<lparr>crsfFrame := [0xC8, 0x00, 0x16] @ replicate 61 0, crsfFramePosition := 3,
                 crsfFrameErrorCnt := 3\<rparr>)"
  by code_simp

subsection \<open>Frames longer than the buffer\<close>

text \<open>
  Claim C1 at a failing input. In the initial state, the header of a frame that declares
  the length 255 (a wire size of 257 bytes) followed by 63 more bytes, all within the
  frame time: the first 64 bytes fill the buffer, and the 65th is written to
  \<^verbatim>\<open>crsfFrame.bytes[64]\<close>, one past the end.
\<close>

theorem crsfDataReceive_frame_buffer_overrun:
  "(\<exists>calls s. crsfFeed crsfEnv0 crsfInit (map (\<lambda>b. (0, b)) (0xC8 # 0xFF # replicate 62 0)) = Inr (calls, s) \<and>
       crsfFramePosition s = 64 \<and> crsfFrame s = 0xC8 # 0xFF # replicate 62 0 \<and>
       crsfDataReceive crsfEnv0 0 0 s = Inl (FrameBufferOverrun 64)) \<and>
   crsfFeed crsfEnv0 crsfInit (map (\<lambda>b. (0, b)) (0xC8 # 0xFF # replicate 63 0))
     = Inl (FrameBufferOverrun 64)"
proof -
  let ?s = "crsfInit\<lparr>crsfFrame := 0xC8 # 0xFF # replicate 62 0, crsfFramePosition := 64,
                 crsfFrameErrorCnt := 64\<rparr>"
  have 1: "crsfFeed crsfEnv0 crsfInit (map (\<lambda>b. (0, b)) (0xC8 # 0xFF # replicate 62 0)) = Inr ([], ?s)"
    by code_simp
  have 2: "crsfDataReceive crsfEnv0 0 0 ?s = Inl (FrameBufferOverrun 64)"
    by code_simp
  have 3: "crsfFeed crsfEnv0 crsfInit (map (\<lambda>b. (0, b)) (0xC8 # 0xFF # replicate 63 0))
     = Inl (FrameBufferOverrun 64)"
    by code_simp
  have 4: "crsfFramePosition ?s = 64" "crsfFrame ?s = 0xC8 # 0xFF # replicate 62 0"
    by simp_all
  from 1 2 3 4 show ?thesis by blast
qed

subsection \<open>A subset frame that writes outside the channel array\<close>

text \<open>
  Claim C3. The subset frame with the payload bytes \<open>0x1F, 0x00\<close> (starting channel 31, one
  channel) and the CRC of its type and payload is addressed to the flight controller; fed
  to the assembler in the initial state it is latched, and the poll that unpacks it writes
  \<^verbatim>\<open>crsfChannelData[31]\<close>, outside the 16-entry array.
\<close>

theorem crsfFrameStatus_channel_overrun:
  "\<exists>payload calls s i.
     hd payload AND 0x1F = 31 \<and>
     crsfFeed crsfEnv0 crsfInit
       (map (\<lambda>b. (0, ucast b))
          ([CRSF_ADDRESS_FLIGHT_CONTROLLER, word_of_nat (length payload + 2),
            CRSF_FRAMETYPE_SUBSET_RC_CHANNELS_PACKED] @ payload @
           [foldl crc8_dvb_s2 0 (CRSF_FRAMETYPE_SUBSET_RC_CHANNELS_PACKED # payload)]))
       = Inr (calls, s) \<and>
     crsfFrameDone s \<and>
     crsfFrameStatus s = Inl (ChannelDataOverrun i) \<and> CRSF_MAX_CHANNEL \<le> i"
proof -
  let ?payload = "[0x1F, 0x00] :: u8 list"
  let ?frame = "[0xC8, 0x04, 0x17, 0x1F, 0x00, 0xE3] :: u8 list"
  let ?s = "crsfInit\<lparr>crsfFrameDone := True, crsfFrame := ?frame @ replicate 58 0,
                 crsfChannelDataFrame := ?frame @ replicate 58 0\<rparr>"
  have "crsfFeed crsfEnv0 crsfInit
       (map (\<lambda>b. (0, ucast b))
          ([CRSF_ADDRESS_FLIGHT_CONTROLLER, word_of_nat (length ?payload + 2),
            CRSF_FRAMETYPE_SUBSET_RC_CHANNELS_PACKED] @ ?payload @
           [foldl crc8_dvb_s2 0 (CRSF_FRAMETYPE_SUBSET_RC_CHANNELS_PACKED # ?payload)]))
       = Inr ([], ?s)"
    by code_simp
  moreover have "crsfFrameStatus ?s = Inl (ChannelDataOverrun 31)"
    by code_simp
  moreover have "hd ?payload AND 0x1F = 31" by simp
  moreover have "crsfFrameDone ?s" by simp
  moreover have "CRSF_MAX_CHANNEL \<le> 31" by (simp add: CRSF_MAX_CHANNEL_def)
  ultimately show ?thesis by blast
qed

subsection \<open>Assembling one frame\<close>

text \<open>What a stored byte that does not complete a frame does besides being stored.\<close>

lemma crsfStored_fields:
  "crsfFramePosition (snd (crsfErrorThreshold (cs, crsfFrameErrorCntInc s))) = crsfFramePosition s"
  "crsfFrame (snd (crsfErrorThreshold (cs, crsfFrameErrorCntInc s))) = crsfFrame s"
  "crsfFrameStartAtUs (snd (crsfErrorThreshold (cs, crsfFrameErrorCntInc s))) = crsfFrameStartAtUs s"
  "crsfFrameDone (snd (crsfErrorThreshold (cs, crsfFrameErrorCntInc s))) = crsfFrameDone s"
  "crsfChannelDataFrame (snd (crsfErrorThreshold (cs, crsfFrameErrorCntInc s))) = crsfChannelDataFrame s"
  "crsfChannelData (snd (crsfErrorThreshold (cs, crsfFrameErrorCntInc s))) = crsfChannelData s"
  "lastLinkStatisticsFrameUs (snd (crsfErrorThreshold (cs, crsfFrameErrorCntInc s)))
     = lastLinkStatisticsFrameUs s"
  by (simp_all add: crsfErrorThreshold_def crsfFrameErrorCntInc_def)

lemma crsfStored_calls:
  "set (fst (crsfErrorThreshold ([], s))) \<subseteq> {Call_setCrsfDefaultSpeed}"
  by (simp add: crsfErrorThreshold_def)

lemma crsfDataReceive_first:
  assumes "crsfFramePosition s = 0 \<or> crsfFrameTimedOut t (crsfFrameStartAtUs s)"
  shows "crsfDataReceive env t c s =
           Inr (crsfErrorThreshold ([], crsfFrameErrorCntInc
                  (s\<lparr>crsfFrameStartAtUs := t, crsfFrame := (crsfFrame s)[0 := ucast c],
                     crsfFramePosition := 1\<rparr>)))"
  using assms
  by (auto simp: crsfDataReceive_def Let_def CRSF_FRAME_SIZE_MAX_def)

lemma crsfDataReceive_store:
  assumes pos: "unat (crsfFramePosition s) = k" "0 < k" "k < 64"
    and intime: "\<not> crsfFrameTimedOut t (crsfFrameStartAtUs s)"
    and more: "k + 1 < (if k < 3 then 5 else unat (crsfFrame s ! 1) + 2)"
  shows "crsfDataReceive env t c s =
           Inr (crsfErrorThreshold ([], crsfFrameErrorCntInc
                  (s\<lparr>crsfFrame := (crsfFrame s)[k := ucast c],
                     crsfFramePosition := crsfFramePosition s + 1\<rparr>)))"
proof -
  define L where "L = unat (crsfFrame s ! 1)"
  have len: "uint (crsfFrame s ! 1) = int L"
    by (simp only: L_def uint_nat)
  have nz: "crsfFramePosition s \<noteq> 0" using pos by auto
  have lt3: "crsfFramePosition s < 3 \<longleftrightarrow> k < 3"
    using pos by (simp add: word_less_nat_alt)
  have up: "uint (crsfFramePosition s) = int k"
    using pos uint_nat [of "crsfFramePosition s"] by (simp only:)
  have suc: "unat (crsfFramePosition s + 1) = k + 1"
    using pos by (simp add: unat_word_ariths)
  then have up1: "uint (crsfFramePosition s + 1) = int k + 1"
    using uint_nat [of "crsfFramePosition s + 1"] by (simp only: of_nat_add of_nat_1)
  from more have more': "k < 3 \<or> k + 1 < L + 2"
    by (simp add: L_def split: if_splits)
  show ?thesis
    using nz intime more' pos(2,3)
    by (auto simp add: crsfDataReceive_def Let_def CRSF_FRAME_SIZE_MAX_def lt3 up up1 len pos(1)
          CRSF_FRAME_LENGTH_ADDRESS_def CRSF_FRAME_LENGTH_FRAMELENGTH_def
          simp del: One_nat_def)
qed

lemma crsfDataReceive_complete:
  assumes pos: "unat (crsfFramePosition s) = k" "3 \<le> k" "k < 64"
    and intime: "\<not> crsfFrameTimedOut t (crsfFrameStartAtUs s)"
    and full: "k + 1 = unat (crsfFrame s ! 1) + 2"
  shows "crsfDataReceive env t c s =
           (case crsfFrameCRC ((crsfFrame s)[k := ucast c]) of
              Inl e \<Rightarrow> Inl e
            | Inr crc \<Rightarrow>
                if crc = (crsfFrame s)[k := ucast c] ! k then
                  (case crsfDispatch env t (1 + int k)
                          (s\<lparr>crsfFrame := (crsfFrame s)[k := ucast c], crsfFramePosition := 0,
                             crsfFrameErrorCnt := 0\<rparr>) of
                     Inl e \<Rightarrow> Inl e
                   | Inr r \<Rightarrow> Inr (crsfErrorThreshold r))
                else Inr (crsfErrorThreshold ([], crsfFrameErrorCntInc
                       (s\<lparr>crsfFrame := (crsfFrame s)[k := ucast c], crsfFramePosition := 0\<rparr>))))"
proof -
  have nz: "crsfFramePosition s \<noteq> 0" using pos by auto
  have lt3: "\<not> crsfFramePosition s < 3"
    using pos by (simp add: word_less_nat_alt)
  have up: "uint (crsfFramePosition s) = int k"
    using pos uint_nat [of "crsfFramePosition s"] by (simp only:)
  have suc: "unat (crsfFramePosition s + 1) = k + 1"
    using pos by (simp add: unat_word_ariths)
  then have up1: "uint (crsfFramePosition s + 1) = int k + 1"
    using uint_nat [of "crsfFramePosition s + 1"] by (simp only: of_nat_add of_nat_1)
  have "int (unat (crsfFrame s ! 1)) = int k - 1"
    using full by linarith
  then have len: "uint (crsfFrame s ! 1) = int k - 1"
    by (simp only: uint_nat)
  show ?thesis
    using nz intime pos(2,3)
    by (simp add: crsfDataReceive_def Let_def CRSF_FRAME_SIZE_MAX_def lt3 up up1 len pos(1)
          CRSF_FRAME_LENGTH_ADDRESS_def CRSF_FRAME_LENGTH_FRAMELENGTH_def
          del: One_nat_def cong: sum.case_cong if_cong)
qed

lemma crsfFeed_append:
  "crsfFeed env s (xs @ ys) =
     (case crsfFeed env s xs of
        Inl e \<Rightarrow> Inl e
      | Inr r \<Rightarrow>
          (case crsfFeed env (snd r) ys of
             Inl e \<Rightarrow> Inl e
           | Inr r' \<Rightarrow> Inr (fst r @ fst r', snd r')))"
  by (induction xs arbitrary: s) (auto split: sum.splits)

lemma crsfFeed_accumulate:
  assumes "length ts = length bs"
    and "unat (crsfFramePosition s) = k" and "0 < k" and "k + length bs \<le> 64"
    and "length (crsfFrame s) = 64"
    and "\<forall>t\<in>set ts. \<not> crsfFrameTimedOut t (crsfFrameStartAtUs s)"
    and "k + length bs \<le> 3 \<or> k + length bs < unat ((take k (crsfFrame s) @ bs) ! 1) + 2"
  shows "\<exists>calls s'. crsfFeed env s (zip ts (map ucast bs)) = Inr (calls, s') \<and>
           unat (crsfFramePosition s') = k + length bs \<and>
           crsfFrame s' = take k (crsfFrame s) @ bs @ drop (k + length bs) (crsfFrame s) \<and>
           crsfFrameStartAtUs s' = crsfFrameStartAtUs s \<and>
           crsfFrameDone s' = crsfFrameDone s \<and>
           crsfChannelDataFrame s' = crsfChannelDataFrame s \<and>
           crsfChannelData s' = crsfChannelData s \<and>
           lastLinkStatisticsFrameUs s' = lastLinkStatisticsFrameUs s \<and>
           set calls \<subseteq> {Call_setCrsfDefaultSpeed}"
  using assms
proof (induction ts bs arbitrary: s k rule: list_induct2)
  case Nil
  then show ?case by simp
next
  case (Cons t ts b bs)
  let ?buf = "crsfFrame s"
  let ?s1 = "s\<lparr>crsfFrame := ?buf[k := b], crsfFramePosition := crsfFramePosition s + 1\<rparr>"
  let ?r = "crsfErrorThreshold ([], crsfFrameErrorCntInc ?s1)"
  have k: "k < 64" using Cons.prems(3) by simp
  have more: "k + 1 < (if k < 3 then 5 else unat (?buf ! 1) + 2)"
  proof (cases "k < 3")
    case True
    then show ?thesis by simp
  next
    case False
    then have "(take k ?buf @ b # bs) ! 1 = ?buf ! 1"
      using Cons.prems(4) by (simp add: nth_append)
    with False Cons.prems(6) show ?thesis by simp
  qed
  have step: "crsfDataReceive env t (ucast b) s = Inr ?r"
    using crsfDataReceive_store [OF Cons.prems(1) Cons.prems(2) k _ more, of t env "ucast b"]
      Cons.prems(5)
    by (simp add: ucast_up_ucast_id is_up)
  have pos1: "unat (crsfFramePosition (snd ?r)) = k + 1"
    using Cons.prems(1) k by (simp add: crsfStored_fields unat_word_ariths)
  have buf1: "crsfFrame (snd ?r) = ?buf[k := b]"
    by (simp add: crsfStored_fields)
  have tk: "take (k + 1) (?buf[k := b]) = take k ?buf @ [b]"
    using k Cons.prems(4) by (simp add: take_Suc_conv_app_nth)
  have ih: "\<exists>calls s'. crsfFeed env (snd ?r) (zip ts (map ucast bs)) = Inr (calls, s') \<and>
           unat (crsfFramePosition s') = (k + 1) + length bs \<and>
           crsfFrame s' = take (k + 1) (crsfFrame (snd ?r)) @ bs
              @ drop ((k + 1) + length bs) (crsfFrame (snd ?r)) \<and>
           crsfFrameStartAtUs s' = crsfFrameStartAtUs (snd ?r) \<and>
           crsfFrameDone s' = crsfFrameDone (snd ?r) \<and>
           crsfChannelDataFrame s' = crsfChannelDataFrame (snd ?r) \<and>
           crsfChannelData s' = crsfChannelData (snd ?r) \<and>
           lastLinkStatisticsFrameUs s' = lastLinkStatisticsFrameUs (snd ?r) \<and>
           set calls \<subseteq> {Call_setCrsfDefaultSpeed}"
  proof (rule Cons.IH [OF pos1])
    show "0 < k + 1" by simp
    show "k + 1 + length bs \<le> 64" using Cons.prems(3) by simp
    show "length (crsfFrame (snd ?r)) = 64" using Cons.prems(4) by (simp add: buf1)
    show "\<forall>t\<in>set ts. \<not> crsfFrameTimedOut t (crsfFrameStartAtUs (snd ?r))"
      using Cons.prems(5) by (simp add: crsfStored_fields)
    show "k + 1 + length bs \<le> 3 \<or>
          k + 1 + length bs < unat ((take (k + 1) (crsfFrame (snd ?r)) @ bs) ! 1) + 2"
      using Cons.prems(6) by (simp add: buf1 tk del: One_nat_def)
  qed
  then obtain calls s' where
    feed: "crsfFeed env (snd ?r) (zip ts (map ucast bs)) = Inr (calls, s')"
    and s': "unat (crsfFramePosition s') = (k + 1) + length bs"
      "crsfFrame s' = take (k + 1) (crsfFrame (snd ?r)) @ bs
              @ drop ((k + 1) + length bs) (crsfFrame (snd ?r))"
      "crsfFrameStartAtUs s' = crsfFrameStartAtUs (snd ?r)"
      "crsfFrameDone s' = crsfFrameDone (snd ?r)"
      "crsfChannelDataFrame s' = crsfChannelDataFrame (snd ?r)"
      "crsfChannelData s' = crsfChannelData (snd ?r)"
      "lastLinkStatisticsFrameUs s' = lastLinkStatisticsFrameUs (snd ?r)"
    and calls: "set calls \<subseteq> {Call_setCrsfDefaultSpeed}"
    by blast
  have all: "crsfFeed env s (zip (t # ts) (map ucast (b # bs))) = Inr (fst ?r @ calls, s')"
    by (simp add: step feed)
  have dk: "drop (k + 1 + length bs) (crsfFrame (snd ?r)) = drop (k + length (b # bs)) ?buf"
    by (simp add: buf1)
  have tk': "take (k + 1) (crsfFrame (snd ?r)) = take k ?buf @ [b]"
    by (simp only: buf1 tk)
  have frame: "crsfFrame s' = take k ?buf @ (b # bs) @ drop (k + length (b # bs)) ?buf"
    unfolding s'(2) tk' dk by simp
  have "set (fst ?r @ calls) \<subseteq> {Call_setCrsfDefaultSpeed}"
    using calls crsfStored_calls [of "crsfFrameErrorCntInc ?s1"] by simp
  with all frame s' show ?case
    by (simp add: crsfStored_fields)
qed

lemma crsfFrameBytes_length [simp]:
  "length (crsfFrameBytes addr ty payload crc) = length payload + 4"
  by (simp add: crsfFrameBytes_def)

lemma unat_word_of_nat_u8:
  "n < 256 \<Longrightarrow> unat (word_of_nat n :: u8) = n"
  by (simp add: unat_of_nat)

lemma crsfFrameBytes_len:
  assumes "length payload \<le> 60"
  shows "unat (crsfFrameBytes addr ty payload crc ! 1) = length payload + 2"
proof -
  have "crsfFrameBytes addr ty payload crc ! 1 = word_of_nat (length payload + 2)"
    by (simp add: crsfFrameBytes_def)
  then show ?thesis
    using assms by (simp only: unat_word_of_nat_u8)
qed

lemma crsfFeed_frame_prefix:
  assumes buf: "length (crsfFrame s) = 64"
    and payload: "length payload \<le> 60"
    and start: "crsfFramePosition s = 0 \<or> crsfFrameTimedOut t0 (crsfFrameStartAtUs s)"
    and ts: "length ts = j - 1"
    and intime: "\<forall>t\<in>set ts. \<not> crsfFrameTimedOut t t0"
    and j: "0 < j" "j < length payload + 4"
  shows "\<exists>calls s'.
           crsfFeed env s (crsfTimed (t0 # ts) (take j (crsfFrameBytes addr ty payload crc)))
             = Inr (calls, s') \<and>
           unat (crsfFramePosition s') = j \<and>
           crsfFrame s' = take j (crsfFrameBytes addr ty payload crc) @ drop j (crsfFrame s) \<and>
           crsfFrameStartAtUs s' = t0 \<and>
           crsfFrameDone s' = crsfFrameDone s \<and>
           crsfChannelDataFrame s' = crsfChannelDataFrame s \<and>
           crsfChannelData s' = crsfChannelData s \<and>
           lastLinkStatisticsFrameUs s' = lastLinkStatisticsFrameUs s \<and>
           set calls \<subseteq> {Call_setCrsfDefaultSpeed}"
proof -
  define frame where "frame = crsfFrameBytes addr ty payload crc"
  define lenb :: u8 where "lenb = word_of_nat (length payload + 2)"
  define rest where "rest = lenb # ty # payload @ [crc]"
  define bs where "bs = take (j - 1) rest"
  let ?s1 = "s\<lparr>crsfFrameStartAtUs := t0, crsfFrame := (crsfFrame s)[0 := addr],
               crsfFramePosition := 1\<rparr>"
  define r where "r = crsfErrorThreshold ([], crsfFrameErrorCntInc ?s1)"
  have fr: "frame = addr # rest"
    by (simp add: frame_def rest_def lenb_def crsfFrameBytes_def)
  have tj: "take j frame = addr # bs"
    using j(1) unfolding fr bs_def by (cases j) simp_all
  have lbs: "length bs = j - 1" using j by (simp add: bs_def rest_def)
  have first: "crsfDataReceive env t0 (ucast addr) s = Inr r"
    using crsfDataReceive_first [OF start, of env "ucast addr"]
    by (simp add: ucast_up_ucast_id is_up r_def)
  have buf1: "crsfFrame (snd r) = (crsfFrame s)[0 := addr]"
    by (simp add: crsfStored_fields r_def)
  have "take 1 ((crsfFrame s)[0 := addr]) = [addr]"
    using buf by (cases "crsfFrame s") simp_all
  then have t1: "take 1 (crsfFrame (snd r)) = [addr]"
    by (simp only: buf1)
  have acc: "\<exists>calls s'. crsfFeed env (snd r) (zip ts (map ucast bs)) = Inr (calls, s') \<and>
           unat (crsfFramePosition s') = 1 + length bs \<and>
           crsfFrame s' = take 1 (crsfFrame (snd r)) @ bs
              @ drop (1 + length bs) (crsfFrame (snd r)) \<and>
           crsfFrameStartAtUs s' = crsfFrameStartAtUs (snd r) \<and>
           crsfFrameDone s' = crsfFrameDone (snd r) \<and>
           crsfChannelDataFrame s' = crsfChannelDataFrame (snd r) \<and>
           crsfChannelData s' = crsfChannelData (snd r) \<and>
           lastLinkStatisticsFrameUs s' = lastLinkStatisticsFrameUs (snd r) \<and>
           set calls \<subseteq> {Call_setCrsfDefaultSpeed}"
  proof (rule crsfFeed_accumulate)
    show "length ts = length bs" using ts lbs by simp
    show "unat (crsfFramePosition (snd r)) = 1" by (simp add: crsfStored_fields r_def)
    show "0 < (1::nat)" by simp
    show "1 + length bs \<le> 64" using j payload lbs by simp
    show "length (crsfFrame (snd r)) = 64" using buf by (simp add: buf1)
    show "\<forall>t\<in>set ts. \<not> crsfFrameTimedOut t (crsfFrameStartAtUs (snd r))"
      using intime by (simp add: crsfStored_fields r_def)
    show "1 + length bs \<le> 3 \<or>
          1 + length bs < unat ((take 1 (crsfFrame (snd r)) @ bs) ! 1) + 2"
    proof (cases "j \<le> 3")
      case True
      then have "1 + length bs \<le> 3" using lbs by simp
      then show ?thesis by (rule disjI1)
    next
      case False
      then have "(take 1 (crsfFrame (snd r)) @ bs) ! 1 = lenb"
        unfolding t1 bs_def rest_def by (cases j) simp_all
      moreover have "unat lenb = length payload + 2"
        unfolding lenb_def using payload by (intro unat_word_of_nat_u8) simp
      ultimately show ?thesis using j lbs by simp
    qed
  qed
  then obtain calls s' where
    feed: "crsfFeed env (snd r) (zip ts (map ucast bs)) = Inr (calls, s')"
    and s': "unat (crsfFramePosition s') = 1 + length bs"
      "crsfFrame s' = take 1 (crsfFrame (snd r)) @ bs
              @ drop (1 + length bs) (crsfFrame (snd r))"
      "crsfFrameStartAtUs s' = crsfFrameStartAtUs (snd r)"
      "crsfFrameDone s' = crsfFrameDone (snd r)"
      "crsfChannelDataFrame s' = crsfChannelDataFrame (snd r)"
      "crsfChannelData s' = crsfChannelData (snd r)"
      "lastLinkStatisticsFrameUs s' = lastLinkStatisticsFrameUs (snd r)"
    and calls: "set calls \<subseteq> {Call_setCrsfDefaultSpeed}"
    by blast
  have all: "crsfFeed env s (crsfTimed (t0 # ts) (take j frame)) = Inr (fst r @ calls, s')"
    unfolding tj by (simp add: crsfTimed_def first feed)
  have dj: "drop (1 + length bs) (crsfFrame (snd r)) = drop j (crsfFrame s)"
    using j(1) lbs by (simp add: buf1 drop_Suc tl_drop [symmetric])
  have frame: "crsfFrame s' = take j frame @ drop j (crsfFrame s)"
    unfolding s'(2) t1 dj tj by simp
  have "set (fst r @ calls) \<subseteq> {Call_setCrsfDefaultSpeed}"
    using calls crsfStored_calls [of "crsfFrameErrorCntInc ?s1"] by (simp add: r_def)
  moreover have "unat (crsfFramePosition s') = j" using s'(1) lbs j(1) by simp
  moreover have "crsfFrameStartAtUs s' = t0" "crsfFrameDone s' = crsfFrameDone s"
    "crsfChannelDataFrame s' = crsfChannelDataFrame s" "crsfChannelData s' = crsfChannelData s"
    "lastLinkStatisticsFrameUs s' = lastLinkStatisticsFrameUs s"
    using s'(3-7) by (simp_all add: crsfStored_fields r_def)
  ultimately show ?thesis
    using all frame unfolding frame_def by blast
qed

lemma crsfFrameCRC_frame:
  assumes "length payload \<le> 60"
    and "length (crsfFrameBytes addr ty payload crc @ rest) = 64"
  shows "crsfFrameCRC (crsfFrameBytes addr ty payload crc @ rest)
           = Inr (foldl crc8_dvb_s2 0 (ty # payload))"
    and "crsfFrameCmdCRC (crsfFrameBytes addr ty payload crc @ rest)
           = Inr (foldl crc8_poly_0xba 0 (ty # butlast payload))"
proof -
  define lenb :: u8 where "lenb = word_of_nat (length payload + 2)"
  define buf where "buf = crsfFrameBytes addr ty payload crc @ rest"
  have buf: "buf = addr # lenb # ty # payload @ crc # rest"
    by (simp add: buf_def lenb_def crsfFrameBytes_def)
  have "unat lenb = length payload + 2"
    unfolding lenb_def using assms(1) by (intro unat_word_of_nat_u8) simp
  then have len: "uint (buf ! 1) = int (length payload) + 2"
    unfolding buf by (simp add: uint_nat del: of_nat_unat)
  have n: "nat (uint (buf ! 1) - CRSF_FRAME_LENGTH_TYPE_CRC) = length payload"
    unfolding len by (simp add: CRSF_FRAME_LENGTH_TYPE_CRC_def)
  have m: "nat (uint (buf ! 1) - CRSF_FRAME_LENGTH_TYPE_CRC - 1) = length payload - 1"
    unfolding len by (simp add: CRSF_FRAME_LENGTH_TYPE_CRC_def)
  have size: "length buf = 64" using assms(2) by (simp add: buf_def)
  have ty: "buf ! 2 = ty" unfolding buf by simp
  have pl: "take (length payload) (drop 3 buf) = payload" unfolding buf by simp
  have pl1: "take (length payload - 1) (drop 3 buf) = butlast payload"
    unfolding buf by (simp add: butlast_conv_take)
  show "crsfFrameCRC (crsfFrameBytes addr ty payload crc @ rest)
           = Inr (foldl crc8_dvb_s2 0 (ty # payload))"
    unfolding buf_def [symmetric] crsfFrameCRC_def n Let_def size ty pl
    using assms(1) by simp
  show "crsfFrameCmdCRC (crsfFrameBytes addr ty payload crc @ rest)
           = Inr (foldl crc8_poly_0xba 0 (ty # butlast payload))"
    unfolding buf_def [symmetric] crsfFrameCmdCRC_def m Let_def size ty pl1
    using assms(1) by simp
qed

lemma crsfDispatch_fields:
  assumes "crsfDispatch env t f s = Inr r"
  shows "crsfFrameErrorCnt (snd r) = crsfFrameErrorCnt s"
    and "crsfFramePosition (snd r) = crsfFramePosition s"
    and "crsfFrame (snd r) = crsfFrame s"
    and "crsfFrameStartAtUs (snd r) = crsfFrameStartAtUs s"
    and "crsfChannelData (snd r) = crsfChannelData s"
  using assms
  by (auto simp: crsfDispatch_def Let_def handleCrsfLinkStatisticsTxFrame_def
        split: if_splits sum.splits)

lemma crsfDispatch_total:
  assumes "crsfFrameCmdCRC (crsfFrame s) = Inr x"
  shows "\<exists>r. crsfDispatch env t f s = Inr r"
  using assms by (simp add: crsfDispatch_def Let_def)

lemma crsfFeed_frame_run:
  assumes buf: "length (crsfFrame s) = 64"
    and payload: "length payload \<le> 60"
    and start: "crsfFramePosition s = 0 \<or> crsfFrameTimedOut t0 (crsfFrameStartAtUs s)"
    and ts: "length ts = length payload + 2"
    and intime: "\<forall>t\<in>set (ts @ [tn]). \<not> crsfFrameTimedOut t t0"
  shows "\<exists>calls1 s1.
           crsfFeed env s (crsfTimed (t0 # ts) (butlast (crsfFrameBytes addr ty payload crc)))
             = Inr (calls1, s1) \<and>
           set calls1 \<subseteq> {Call_setCrsfDefaultSpeed} \<and>
           crsfFrameDone s1 = crsfFrameDone s \<and>
           crsfChannelDataFrame s1 = crsfChannelDataFrame s \<and>
           crsfChannelData s1 = crsfChannelData s \<and>
           lastLinkStatisticsFrameUs s1 = lastLinkStatisticsFrameUs s \<and>
           crsfFrameStartAtUs s1 = t0 \<and>
           crsfFeed env s (crsfTimed (t0 # ts @ [tn]) (crsfFrameBytes addr ty payload crc)) =
             (if crc = foldl crc8_dvb_s2 0 (ty # payload) then
                (case crsfDispatch env tn (int (length payload + 4))
                        (s1\<lparr>crsfFrame := crsfFrameBytes addr ty payload crc
                                @ drop (length payload + 4) (crsfFrame s),
                            crsfFramePosition := 0, crsfFrameErrorCnt := 0\<rparr>) of
                   Inl e \<Rightarrow> Inl e
                 | Inr r \<Rightarrow> Inr (calls1 @ fst r, snd r))
              else
                Inr (calls1 @ fst (crsfErrorThreshold ([], crsfFrameErrorCntInc
                         (s1\<lparr>crsfFrame := crsfFrameBytes addr ty payload crc
                                @ drop (length payload + 4) (crsfFrame s),
                             crsfFramePosition := 0\<rparr>))),
                     snd (crsfErrorThreshold ([], crsfFrameErrorCntInc
                         (s1\<lparr>crsfFrame := crsfFrameBytes addr ty payload crc
                                @ drop (length payload + 4) (crsfFrame s),
                             crsfFramePosition := 0\<rparr>)))))"
proof -
  define frame where "frame = crsfFrameBytes addr ty payload crc"
  define k where "k = length payload + 3"
  define buf' where "buf' = frame @ drop (length payload + 4) (crsfFrame s)"
  have lf: "length frame = k + 1" by (simp add: frame_def k_def)
  have bl: "butlast frame = take k frame"
    by (simp add: butlast_conv_take lf)
  have "frame \<noteq> []" "last frame = crc"
    by (simp_all add: frame_def crsfFrameBytes_def)
  then have fl: "frame = take k frame @ [crc]"
    using append_butlast_last_id [of frame] by (simp add: bl)
  have "\<exists>calls s'.
           crsfFeed env s (crsfTimed (t0 # ts) (take k (crsfFrameBytes addr ty payload crc)))
             = Inr (calls, s') \<and>
           unat (crsfFramePosition s') = k \<and>
           crsfFrame s' = take k (crsfFrameBytes addr ty payload crc) @ drop k (crsfFrame s) \<and>
           crsfFrameStartAtUs s' = t0 \<and>
           crsfFrameDone s' = crsfFrameDone s \<and>
           crsfChannelDataFrame s' = crsfChannelDataFrame s \<and>
           crsfChannelData s' = crsfChannelData s \<and>
           lastLinkStatisticsFrameUs s' = lastLinkStatisticsFrameUs s \<and>
           set calls \<subseteq> {Call_setCrsfDefaultSpeed}"
    using intime ts by (intro crsfFeed_frame_prefix [OF buf payload start]) (simp_all add: k_def)
  then obtain calls1 s1 where
    feed: "crsfFeed env s (crsfTimed (t0 # ts) (take k frame)) = Inr (calls1, s1)"
    and s1: "unat (crsfFramePosition s1) = k"
      "crsfFrame s1 = take k frame @ drop k (crsfFrame s)"
      "crsfFrameStartAtUs s1 = t0"
      "crsfFrameDone s1 = crsfFrameDone s"
      "crsfChannelDataFrame s1 = crsfChannelDataFrame s"
      "crsfChannelData s1 = crsfChannelData s"
      "lastLinkStatisticsFrameUs s1 = lastLinkStatisticsFrameUs s"
    and calls1: "set calls1 \<subseteq> {Call_setCrsfDefaultSpeed}"
    unfolding frame_def by blast
  have k: "3 \<le> k" "k < 64" using payload by (simp_all add: k_def)
  have ltk: "length (take k frame) = k" using lf by simp
  have len1: "crsfFrame s1 ! 1 = frame ! 1"
    unfolding s1(2) using k by (simp add: nth_append lf)
  have full: "k + 1 = unat (crsfFrame s1 ! 1) + 2"
    unfolding len1 frame_def using crsfFrameBytes_len [OF payload, of addr ty crc]
    by (simp add: k_def)
  have intime': "\<not> crsfFrameTimedOut tn (crsfFrameStartAtUs s1)"
    using intime by (simp add: s1(3))
  have upd: "(crsfFrame s1)[k := crc] = buf'"
  proof -
    have "(take k frame @ drop k (crsfFrame s))[k := crc]
        = take k frame @ (drop k (crsfFrame s))[0 := crc]"
      using ltk by (simp add: list_update_append)
    also have "(drop k (crsfFrame s))[0 := crc] = crc # drop (k + 1) (crsfFrame s)"
      using buf k by (cases "drop k (crsfFrame s)") (simp_all add: drop_Suc tl_drop [symmetric])
    also have "take k frame @ crc # drop (k + 1) (crsfFrame s)
        = (take k frame @ [crc]) @ drop (k + 1) (crsfFrame s)"
      by simp
    also have "\<dots> = frame @ drop (k + 1) (crsfFrame s)"
      by (simp only: fl [symmetric])
    finally have "(take k frame @ drop k (crsfFrame s))[k := crc]
        = frame @ drop (k + 1) (crsfFrame s)" .
    moreover have "k + 1 = length payload + 4" by (simp add: k_def)
    ultimately show ?thesis
      unfolding s1(2) buf'_def by (simp only:)
  qed
  have size: "length (crsfFrameBytes addr ty payload crc @ drop (length payload + 4) (crsfFrame s)) = 64"
    using buf payload by simp
  have crc: "crsfFrameCRC buf' = Inr (foldl crc8_dvb_s2 0 (ty # payload))"
    unfolding buf'_def frame_def by (rule crsfFrameCRC_frame(1) [OF payload size])
  have cmd: "crsfFrameCmdCRC buf' = Inr (foldl crc8_poly_0xba 0 (ty # butlast payload))"
    unfolding buf'_def frame_def by (rule crsfFrameCRC_frame(2) [OF payload size])
  have last: "buf' ! k = crc"
    unfolding buf'_def using fl ltk by (metis append.assoc append_Cons nth_append_length)
  have uc: "ucast (ucast crc :: u16) = crc"
    by (simp add: ucast_up_ucast_id is_up)
  let ?sd = "s1\<lparr>crsfFrame := buf', crsfFramePosition := 0, crsfFrameErrorCnt := 0\<rparr>"
  let ?se = "s1\<lparr>crsfFrame := buf', crsfFramePosition := 0\<rparr>"
  have step: "crsfDataReceive env tn (ucast crc) s1 =
      (if crc = foldl crc8_dvb_s2 0 (ty # payload) then
         (case crsfDispatch env tn (1 + int k) ?sd of
            Inl e \<Rightarrow> Inl e | Inr r \<Rightarrow> Inr (crsfErrorThreshold r))
       else Inr (crsfErrorThreshold ([], crsfFrameErrorCntInc ?se)))"
    using crsfDataReceive_complete [OF s1(1) k intime' full, of env "ucast crc"]
    unfolding uc upd crc last sum.case
    by (simp only: eq_commute [of "foldl crc8_dvb_s2 0 (ty # payload)" crc])
  obtain r where disp: "crsfDispatch env tn (1 + int k) ?sd = Inr r"
    using crsfDispatch_total [of ?sd _ env tn "1 + int k"] cmd by auto
  have "crsfFrameErrorCnt (snd r) = 0"
    using crsfDispatch_fields(1) [OF disp] by simp
  then have thr: "crsfErrorThreshold r = r"
    by (simp add: crsfErrorThreshold_def CRSF_FRAME_ERROR_COUNT_THRESHOLD_def)
  have stream: "crsfTimed (t0 # ts @ [tn]) frame
      = crsfTimed (t0 # ts) (take k frame) @ [(tn, ucast crc)]"
  proof -
    have "length (t0 # ts) = length (map ucast (take k frame) :: u16 list)"
      using ts ltk by (simp add: k_def)
    then have "zip ((t0 # ts) @ [tn]) ((map ucast (take k frame) :: u16 list) @ [ucast crc])
      = zip (t0 # ts) (map ucast (take k frame)) @ zip [tn] [ucast crc]"
      by (rule zip_append)
    moreover have "map ucast frame = (map ucast (take k frame) :: u16 list) @ [ucast crc]"
      using arg_cong [OF fl, of "map ucast"] by simp
    ultimately show ?thesis
      by (simp add: crsfTimed_def)
  qed
  have ik: "1 + int k = int (length payload + 4)" by (simp add: k_def)
  have all: "crsfFeed env s (crsfTimed (t0 # ts @ [tn]) frame) =
      (if crc = foldl crc8_dvb_s2 0 (ty # payload) then
         (case crsfDispatch env tn (int (length payload + 4)) ?sd of
            Inl e \<Rightarrow> Inl e | Inr r \<Rightarrow> Inr (calls1 @ fst r, snd r))
       else Inr (calls1 @ fst (crsfErrorThreshold ([], crsfFrameErrorCntInc ?se)),
                 snd (crsfErrorThreshold ([], crsfFrameErrorCntInc ?se))))"
    unfolding stream crsfFeed_append feed ik [symmetric]
    by (simp add: step disp thr)
  have bl': "butlast (crsfFrameBytes addr ty payload crc)
      = take k (crsfFrameBytes addr ty payload crc)"
    using bl by (simp only: frame_def)
  show ?thesis
    using feed calls1 s1(3-7) all unfolding buf'_def frame_def bl'
    by blast
qed

text \<open>
  A frame none of whose bytes trips the test of line 276. A well-formed frame (address,
  length, type, at most 60 payload bytes and a final byte \<open>crc\<close>) is delivered byte by
  byte: the first byte at \<open>t0\<close>, arriving at position 0 or after a timeout, the others at
  the times \<open>ts\<close> and \<open>tn\<close>, none of which line 276 finds above \<open>t0 + 1100\<close> (the sum
  taken in 32 bits). After every proper prefix of \<open>j\<close> bytes the position is \<open>j\<close>, not 0:
  the frame is not complete, the latch, the snapshot and the channels are untouched and no
  handler was called (the only call possible is the baud rate fallback). The final byte
  completes the frame, with the position back at 0. When \<open>crc\<close> is the DVB-S2 checksum of
  the type and the payload, the outcome of that byte is the dispatcher's, run on the buffer
  holding the frame with the error counter reset; otherwise nothing is dispatched: no
  handler is called and the latch, the snapshot and the channels stay as they were.
\<close>

lemma crsfFeed_frame_assembled:
  assumes buf: "length (crsfFrame s) = CRSF_FRAME_SIZE_MAX"
    and payload: "length payload \<le> 60"
    and start: "crsfFramePosition s = 0 \<or> crsfFrameTimedOut t0 (crsfFrameStartAtUs s)"
    and ts: "length ts = length payload + 2"
    and intime: "\<forall>t\<in>set (ts @ [tn]). \<not> crsfFrameTimedOut t t0"
  shows "(\<forall>j. 0 < j \<and> j < length payload + 4 \<longrightarrow>
            (\<exists>calls s'.
               crsfFeed env s
                 (take j (crsfTimed (t0 # ts @ [tn]) (crsfFrameBytes addr ty payload crc)))
                 = Inr (calls, s') \<and>
               unat (crsfFramePosition s') = j \<and>
               crsfFrameDone s' = crsfFrameDone s \<and>
               crsfChannelDataFrame s' = crsfChannelDataFrame s \<and>
               crsfChannelData s' = crsfChannelData s \<and>
               set calls \<subseteq> {Call_setCrsfDefaultSpeed})) \<and>
         (\<exists>calls1 s1 calls s'.
            crsfFeed env s (crsfTimed (t0 # ts) (butlast (crsfFrameBytes addr ty payload crc)))
              = Inr (calls1, s1) \<and>
            crsfFeed env s (crsfTimed (t0 # ts @ [tn]) (crsfFrameBytes addr ty payload crc))
              = Inr (calls, s') \<and>
            crsfFramePosition s' = 0 \<and>
            (if crc = foldl crc8_dvb_s2 0 (ty # payload)
             then crsfDispatch env tn (int (length payload + 4))
                    (s1\<lparr>crsfFrame := crsfFrameBytes addr ty payload crc
                            @ drop (length payload + 4) (crsfFrame s),
                        crsfFramePosition := 0, crsfFrameErrorCnt := 0\<rparr>)
                    = Inr (drop (length calls1) calls, s') \<and>
                  take (length calls1) calls = calls1
             else set calls \<subseteq> {Call_setCrsfDefaultSpeed} \<and>
                  crsfFrameDone s' = crsfFrameDone s \<and>
                  crsfChannelDataFrame s' = crsfChannelDataFrame s \<and>
                  crsfChannelData s' = crsfChannelData s))"
proof (rule conjI)
  have buf64: "length (crsfFrame s) = 64"
    using buf by (simp add: CRSF_FRAME_SIZE_MAX_def)
  let ?frame = "crsfFrameBytes addr ty payload crc"
  show "\<forall>j. 0 < j \<and> j < length payload + 4 \<longrightarrow>
            (\<exists>calls s'.
               crsfFeed env s (take j (crsfTimed (t0 # ts @ [tn]) ?frame)) = Inr (calls, s') \<and>
               unat (crsfFramePosition s') = j \<and>
               crsfFrameDone s' = crsfFrameDone s \<and>
               crsfChannelDataFrame s' = crsfChannelDataFrame s \<and>
               crsfChannelData s' = crsfChannelData s \<and>
               set calls \<subseteq> {Call_setCrsfDefaultSpeed})"
  proof (intro allI impI)
    fix j
    assume j: "0 < j \<and> j < length payload + 4"
    then obtain i where i: "j = Suc i" by (cases j) auto
    have tk: "take j (crsfTimed (t0 # ts @ [tn]) ?frame)
        = crsfTimed (t0 # take (j - 1) ts) (take j ?frame)"
      using j ts by (simp add: crsfTimed_def take_zip take_map i)
    have "\<exists>calls s'.
           crsfFeed env s (crsfTimed (t0 # take (j - 1) ts) (take j ?frame)) = Inr (calls, s') \<and>
           unat (crsfFramePosition s') = j \<and>
           crsfFrame s' = take j ?frame @ drop j (crsfFrame s) \<and>
           crsfFrameStartAtUs s' = t0 \<and>
           crsfFrameDone s' = crsfFrameDone s \<and>
           crsfChannelDataFrame s' = crsfChannelDataFrame s \<and>
           crsfChannelData s' = crsfChannelData s \<and>
           lastLinkStatisticsFrameUs s' = lastLinkStatisticsFrameUs s \<and>
           set calls \<subseteq> {Call_setCrsfDefaultSpeed}"
    proof (rule crsfFeed_frame_prefix [OF buf64 payload start])
      show "length (take (j - 1) ts) = j - 1" using j ts by (auto simp: min_def)
      show "\<forall>t\<in>set (take (j - 1) ts). \<not> crsfFrameTimedOut t t0"
        using intime by (auto dest: in_set_takeD)
      show "0 < j" "j < length payload + 4" using j by simp_all
    qed
    then show "\<exists>calls s'.
               crsfFeed env s (take j (crsfTimed (t0 # ts @ [tn]) ?frame)) = Inr (calls, s') \<and>
               unat (crsfFramePosition s') = j \<and>
               crsfFrameDone s' = crsfFrameDone s \<and>
               crsfChannelDataFrame s' = crsfChannelDataFrame s \<and>
               crsfChannelData s' = crsfChannelData s \<and>
               set calls \<subseteq> {Call_setCrsfDefaultSpeed}"
      unfolding tk by blast
  qed
next
  have buf64: "length (crsfFrame s) = 64"
    using buf by (simp add: CRSF_FRAME_SIZE_MAX_def)
  let ?frame = "crsfFrameBytes addr ty payload crc"
  let ?buf = "?frame @ drop (length payload + 4) (crsfFrame s)"
  from crsfFeed_frame_run [OF buf64 payload start ts intime, of env addr ty crc]
  obtain calls1 s1 where
    pre: "crsfFeed env s (crsfTimed (t0 # ts) (butlast ?frame)) = Inr (calls1, s1)"
    and calls1: "set calls1 \<subseteq> {Call_setCrsfDefaultSpeed}"
    and s1: "crsfFrameDone s1 = crsfFrameDone s"
      "crsfChannelDataFrame s1 = crsfChannelDataFrame s"
      "crsfChannelData s1 = crsfChannelData s"
    and run: "crsfFeed env s (crsfTimed (t0 # ts @ [tn]) ?frame) =
             (if crc = foldl crc8_dvb_s2 0 (ty # payload) then
                (case crsfDispatch env tn (int (length payload + 4))
                        (s1\<lparr>crsfFrame := ?buf, crsfFramePosition := 0, crsfFrameErrorCnt := 0\<rparr>) of
                   Inl e \<Rightarrow> Inl e
                 | Inr r \<Rightarrow> Inr (calls1 @ fst r, snd r))
              else
                Inr (calls1 @ fst (crsfErrorThreshold ([], crsfFrameErrorCntInc
                         (s1\<lparr>crsfFrame := ?buf, crsfFramePosition := 0\<rparr>))),
                     snd (crsfErrorThreshold ([], crsfFrameErrorCntInc
                         (s1\<lparr>crsfFrame := ?buf, crsfFramePosition := 0\<rparr>)))))"
    by blast
  let ?sd = "s1\<lparr>crsfFrame := ?buf, crsfFramePosition := 0, crsfFrameErrorCnt := 0\<rparr>"
  let ?se = "s1\<lparr>crsfFrame := ?buf, crsfFramePosition := 0\<rparr>"
  show "\<exists>calls1 s1 calls s'.
            crsfFeed env s (crsfTimed (t0 # ts) (butlast ?frame)) = Inr (calls1, s1) \<and>
            crsfFeed env s (crsfTimed (t0 # ts @ [tn]) ?frame) = Inr (calls, s') \<and>
            crsfFramePosition s' = 0 \<and>
            (if crc = foldl crc8_dvb_s2 0 (ty # payload)
             then crsfDispatch env tn (int (length payload + 4))
                    (s1\<lparr>crsfFrame := ?buf, crsfFramePosition := 0, crsfFrameErrorCnt := 0\<rparr>)
                    = Inr (drop (length calls1) calls, s') \<and>
                  take (length calls1) calls = calls1
             else set calls \<subseteq> {Call_setCrsfDefaultSpeed} \<and>
                  crsfFrameDone s' = crsfFrameDone s \<and>
                  crsfChannelDataFrame s' = crsfChannelDataFrame s \<and>
                  crsfChannelData s' = crsfChannelData s)"
  proof (cases "crc = foldl crc8_dvb_s2 0 (ty # payload)")
    case True
    have size: "length ?buf = 64" using buf64 payload by simp
    have "crsfFrameCmdCRC (crsfFrame ?sd) = Inr (foldl crc8_poly_0xba 0 (ty # butlast payload))"
      using crsfFrameCRC_frame(2) [OF payload size] by simp
    from crsfDispatch_total [OF this, of env tn "int (length payload + 4)"]
    obtain r where r: "crsfDispatch env tn (int (length payload + 4)) ?sd = Inr r" by blast
    have "crsfFramePosition (snd r) = 0"
      using crsfDispatch_fields(2) [OF r] by simp
    moreover have "crsfFeed env s (crsfTimed (t0 # ts @ [tn]) ?frame) = Inr (calls1 @ fst r, snd r)"
      using run r by (simp only: if_P [OF True] sum.case)
    moreover have "crsfDispatch env tn (int (length payload + 4)) ?sd
        = Inr (drop (length calls1) (calls1 @ fst r), snd r)"
      using r by simp
    ultimately show ?thesis
      using pre True by (intro exI [of _ calls1] exI [of _ s1] exI [of _ "calls1 @ fst r"]
        exI [of _ "snd r"]) simp
  next
    case False
    let ?r = "crsfErrorThreshold ([], crsfFrameErrorCntInc ?se)"
    have "crsfFeed env s (crsfTimed (t0 # ts @ [tn]) ?frame) = Inr (calls1 @ fst ?r, snd ?r)"
      using run False by simp
    moreover have "set (calls1 @ fst ?r) \<subseteq> {Call_setCrsfDefaultSpeed}"
      using calls1 crsfStored_calls [of "crsfFrameErrorCntInc ?se"] by simp
    moreover have "crsfFramePosition (snd ?r) = 0" "crsfFrameDone (snd ?r) = crsfFrameDone s"
      "crsfChannelDataFrame (snd ?r) = crsfChannelDataFrame s"
      "crsfChannelData (snd ?r) = crsfChannelData s"
      using s1 by (simp_all add: crsfStored_fields)
    ultimately show ?thesis
      using pre False by (intro exI [of _ calls1] exI [of _ s1] exI [of _ "calls1 @ fst ?r"]
        exI [of _ "snd ?r"]) simp
  qed
qed

lemma crsfFeed_frame_assembled_example:
  "\<exists>calls s'.
     crsfFeed crsfEnv0 crsfInit
       (crsfTimed [0, 0, 0, 0, 0, 0] (crsfFrameBytes 0xC8 0x17 [0x1F, 0x00] 0xE3)) = Inr (calls, s') \<and>
     crsfFramePosition s' = 0 \<and>
     crsfDispatch crsfEnv0 0 6
       (crsfInit\<lparr>crsfFrame := [0xC8, 4, 0x17, 0x1F, 0x00, 0xE3] @ replicate 58 0,
          crsfFrameStartAtUs := 0, crsfFramePosition := 0, crsfFrameErrorCnt := 0\<rparr>)
       = Inr (calls, s')"
proof -
  have 1: "length (crsfFrame crsfInit) = CRSF_FRAME_SIZE_MAX"
    by (simp add: crsfInit_def CRSF_FRAME_SIZE_MAX_def)
  have 2: "length ([0x1F, 0x00] :: u8 list) \<le> 60" by simp
  have 3: "crsfFramePosition crsfInit = 0 \<or> crsfFrameTimedOut 0 (crsfFrameStartAtUs crsfInit)"
    by (simp add: crsfInit_def)
  have 4: "length ([0, 0, 0, 0] :: u32 list) = length ([0x1F, 0x00] :: u8 list) + 2" by simp
  have 5: "\<forall>t\<in>set ([0, 0, 0, 0] @ [0 :: u32]). \<not> crsfFrameTimedOut t 0"
    by (simp add: crsfFrameTimedOut_def CRSF_TIME_NEEDED_PER_FRAME_US_def)
  have crc: "(0xE3 :: u8) = foldl crc8_dvb_s2 0 [0x17, 0x1F, 0x00]" by code_simp
  have pre: "crsfFeed crsfEnv0 crsfInit
      (crsfTimed (0 # [0, 0, 0, 0]) (butlast (crsfFrameBytes 0xC8 0x17 [0x1F, 0x00] 0xE3)))
    = Inr ([], crsfInit\<lparr>crsfFrame := [0xC8, 4, 0x17, 0x1F, 0x00] @ replicate 59 0,
          crsfFramePosition := 5, crsfFrameErrorCnt := 5\<rparr>)"
    by code_simp
  have frm: "crsfFrameBytes 0xC8 0x17 [0x1F, 0x00] 0xE3
       @ drop (length ([0x1F, 0x00] :: u8 list) + 4) (crsfFrame crsfInit)
     = [0xC8, 4, 0x17, 0x1F, 0x00, 0xE3] @ replicate 58 0"
    by code_simp
  from crsfFeed_frame_assembled [OF 1 2 3 4 5, of crsfEnv0 "0xC8" "0x17" "0xE3"]
  obtain calls1 s1 calls s' where
    a: "crsfFeed crsfEnv0 crsfInit
         (crsfTimed (0 # [0, 0, 0, 0]) (butlast (crsfFrameBytes 0xC8 0x17 [0x1F, 0x00] 0xE3)))
         = Inr (calls1, s1)"
    and b: "crsfFeed crsfEnv0 crsfInit
         (crsfTimed (0 # [0, 0, 0, 0] @ [0]) (crsfFrameBytes 0xC8 0x17 [0x1F, 0x00] 0xE3))
         = Inr (calls, s')"
    and c: "crsfFramePosition s' = 0"
    and d: "crsfDispatch crsfEnv0 0 (int (length ([0x1F, 0x00] :: u8 list) + 4))
              (s1\<lparr>crsfFrame := crsfFrameBytes 0xC8 0x17 [0x1F, 0x00] 0xE3
                     @ drop (length ([0x1F, 0x00] :: u8 list) + 4) (crsfFrame crsfInit),
                 crsfFramePosition := 0, crsfFrameErrorCnt := 0\<rparr>)
              = Inr (drop (length calls1) calls, s')"
    using crc by auto
  from a pre have e: "calls1 = []"
    "s1 = crsfInit\<lparr>crsfFrame := [0xC8, 4, 0x17, 0x1F, 0x00] @ replicate 59 0,
          crsfFramePosition := 5, crsfFrameErrorCnt := 5\<rparr>"
    by simp_all
  have "crsfDispatch crsfEnv0 0 6
       (crsfInit\<lparr>crsfFrame := [0xC8, 4, 0x17, 0x1F, 0x00, 0xE3] @ replicate 58 0,
          crsfFrameStartAtUs := 0, crsfFramePosition := 0, crsfFrameErrorCnt := 0\<rparr>)
       = Inr (calls, s')"
    using d unfolding frm e by (simp add: crsfInit_def)
  with b c show ?thesis by simp
qed

text \<open>
  Claim C2 at a failing input. The subset frame \<open>C8 04 17 1F 00 E3\<close> is well formed and its
  last byte is the DVB-S2 checksum of \<open>17 1F 00\<close>. From the initial state its first byte
  arrives when the microsecond clock reads \<open>0xFFFFFF00\<close> and each further byte 16
  microseconds later, so that the frame is delivered within 80 microseconds (the elapsed
  times are the differences that line 274 computes). Line 276 compares each timestamp with
  \<open>crsfFrameStartAtUs + 1100\<close>, a sum that wraps to a small number here: every byte is taken
  for the first byte of a new frame. After each of the six bytes the position is 1, the start
  time is that byte's timestamp, the latch is clear and nothing was called: the frame is
  never complete and never dispatched. Delivered at the times 0 to 80 instead, the same
  frame is complete at its last byte, with the position back at 0, the latch set and the
  frame in the snapshot.
\<close>

theorem crsfFeed_frame_lost_before_clock_wrap:
  "crsfFrameBytes 0xC8 0x17 [0x1F, 0x00] 0xE3 = [0xC8, 0x04, 0x17, 0x1F, 0x00, 0xE3] \<and>
   foldl crc8_dvb_s2 0 [0x17, 0x1F, 0x00] = 0xE3 \<and>
   map (\<lambda>t. unat (t - 0xFFFFFF00))
     [0xFFFFFF00, 0xFFFFFF10, 0xFFFFFF20, 0xFFFFFF30, 0xFFFFFF40, 0xFFFFFF50 :: u32]
     = [0, 16, 32, 48, 64, 80] \<and>
   map (\<lambda>j. case crsfFeed crsfEnv0 crsfInit
                  (take j (crsfTimed
                     [0xFFFFFF00, 0xFFFFFF10, 0xFFFFFF20, 0xFFFFFF30, 0xFFFFFF40, 0xFFFFFF50]
                     (crsfFrameBytes 0xC8 0x17 [0x1F, 0x00] 0xE3))) of
               Inl e \<Rightarrow> None
             | Inr r \<Rightarrow> Some (fst r, crsfFrameDone (snd r), crsfFramePosition (snd r),
                              crsfFrameStartAtUs (snd r)))
     [1, 2, 3, 4, 5, 6]
     = [Some ([], False, 1, 0xFFFFFF00), Some ([], False, 1, 0xFFFFFF10),
        Some ([], False, 1, 0xFFFFFF20), Some ([], False, 1, 0xFFFFFF30),
        Some ([], False, 1, 0xFFFFFF40), Some ([], False, 1, 0xFFFFFF50)] \<and>
   (case crsfFeed crsfEnv0 crsfInit
           (crsfTimed [0, 16, 32, 48, 64, 80] (crsfFrameBytes 0xC8 0x17 [0x1F, 0x00] 0xE3)) of
      Inl e \<Rightarrow> False
    | Inr r \<Rightarrow> fst r = [] \<and> crsfFrameDone (snd r) \<and> crsfFramePosition (snd r) = 0 \<and>
        take 6 (crsfChannelDataFrame (snd r)) = [0xC8, 0x04, 0x17, 0x1F, 0x00, 0xE3])"
  by code_simp

subsection \<open>Command frames\<close>

lemma crsfDispatch_command:
  assumes "crsfFrame s ! 2 = CRSF_FRAMETYPE_COMMAND"
    and "crsfFrameCmdCRC (crsfFrame s) = Inr cmdCrc"
  shows "crsfDispatch env t f s =
           Inr (if crsfFrame s ! nat (f - 2) = cmdCrc \<and>
                   crsfFrame s ! 3 = CRSF_ADDRESS_FLIGHT_CONTROLLER
                then [Call_crsfProcessCommand (drop 5 (crsfFrame s))] else [], s)"
  using assms
  by (simp add: crsfDispatch_def Let_def CRSF_FRAMETYPE_COMMAND_def
        CRSF_FRAMETYPE_RC_CHANNELS_PACKED_def CRSF_FRAMETYPE_SUBSET_RC_CHANNELS_PACKED_def
        CRSF_FRAMETYPE_MSP_REQ_def CRSF_FRAMETYPE_MSP_WRITE_def CRSF_FRAMETYPE_DEVICE_PING_def
        CRSF_FRAMETYPE_DISPLAYPORT_CMD_def CRSF_FRAMETYPE_LINK_STATISTICS_def
        CRSF_FRAMETYPE_LINK_STATISTICS_RX_def CRSF_FRAMETYPE_LINK_STATISTICS_TX_def
        CRSF_FRAME_ORIGIN_DEST_SIZE_def)

text \<open>
  Claim C9. A command frame with a valid frame CRC is delivered as in the lemma
  \<open>crsfFeed_frame_assembled\<close>: none of its bytes trips the test of line 276. The byte that
  completes it calls \<^verbatim>\<open>crsfProcessCommand\<close>, with the buffer from byte 5 on (the payload
  after its two origin and destination bytes), if and only if the second-to-last byte of the
  frame equals the command CRC over the type and the payload without its last byte (the
  frame without its last two bytes) and byte 3 of the frame is the flight-controller
  address. Otherwise that byte calls nothing. Either way the state after it holds the frame
  in the buffer, the position 0 and the error counter 0, and the latch, the snapshot and
  the channels are as before the frame.
\<close>

theorem crsfFeed_command_frame:
  assumes buf: "length (crsfFrame s) = CRSF_FRAME_SIZE_MAX"
    and payload: "length payload \<le> 60"
    and start: "crsfFramePosition s = 0 \<or> crsfFrameTimedOut t0 (crsfFrameStartAtUs s)"
    and ts: "length ts = length payload + 2"
    and intime: "\<forall>t\<in>set (ts @ [tn]). \<not> crsfFrameTimedOut t t0"
    and crc: "crc = foldl crc8_dvb_s2 0 (CRSF_FRAMETYPE_COMMAND # payload)"
    and frame: "frame = crsfFrameBytes addr CRSF_FRAMETYPE_COMMAND payload crc"
  shows "\<exists>calls1 s1.
           crsfFeed env s (crsfTimed (t0 # ts) (butlast frame)) = Inr (calls1, s1) \<and>
           set calls1 \<subseteq> {Call_setCrsfDefaultSpeed} \<and>
           crsfFrameDone s1 = crsfFrameDone s \<and>
           crsfChannelDataFrame s1 = crsfChannelDataFrame s \<and>
           crsfChannelData s1 = crsfChannelData s \<and>
           crsfFeed env s (crsfTimed (t0 # ts @ [tn]) frame) =
             Inr (calls1 @
                  (if frame ! (length frame - 2)
                        = foldl crc8_poly_0xba 0 (CRSF_FRAMETYPE_COMMAND # butlast payload) \<and>
                      frame ! 3 = CRSF_ADDRESS_FLIGHT_CONTROLLER
                   then [Call_crsfProcessCommand
                           (drop 5 (frame @ drop (length frame) (crsfFrame s)))]
                   else []),
                  s1\<lparr>crsfFrame := frame @ drop (length frame) (crsfFrame s),
                     crsfFramePosition := 0, crsfFrameErrorCnt := 0\<rparr>)"
proof -
  have buf64: "length (crsfFrame s) = 64"
    using buf by (simp add: CRSF_FRAME_SIZE_MAX_def)
  define buf' where "buf' = frame @ drop (length payload + 4) (crsfFrame s)"
  have lf: "length frame = length payload + 4" by (simp add: frame)
  from crsfFeed_frame_run [OF buf64 payload start ts intime, of env addr CRSF_FRAMETYPE_COMMAND crc]
  obtain calls1 s1 where
    pre: "crsfFeed env s (crsfTimed (t0 # ts) (butlast frame)) = Inr (calls1, s1)"
    and calls1: "set calls1 \<subseteq> {Call_setCrsfDefaultSpeed}"
    and s1: "crsfFrameDone s1 = crsfFrameDone s"
      "crsfChannelDataFrame s1 = crsfChannelDataFrame s"
      "crsfChannelData s1 = crsfChannelData s"
    and run: "crsfFeed env s (crsfTimed (t0 # ts @ [tn]) frame) =
                (case crsfDispatch env tn (int (length payload + 4))
                        (s1\<lparr>crsfFrame := buf', crsfFramePosition := 0, crsfFrameErrorCnt := 0\<rparr>) of
                   Inl e \<Rightarrow> Inl e
                 | Inr r \<Rightarrow> Inr (calls1 @ fst r, snd r))"
    unfolding frame [symmetric] buf'_def if_P [OF crc] by blast
  let ?sd = "s1\<lparr>crsfFrame := buf', crsfFramePosition := 0, crsfFrameErrorCnt := 0\<rparr>"
  have size: "length (crsfFrameBytes addr CRSF_FRAMETYPE_COMMAND payload crc
                 @ drop (length payload + 4) (crsfFrame s)) = 64"
    using buf64 payload by simp
  have cmd: "crsfFrameCmdCRC (crsfFrame ?sd)
      = Inr (foldl crc8_poly_0xba 0 (CRSF_FRAMETYPE_COMMAND # butlast payload))"
    using crsfFrameCRC_frame(2) [OF payload size] by (simp add: buf'_def frame)
  have ty: "crsfFrame ?sd ! 2 = CRSF_FRAMETYPE_COMMAND"
    by (simp add: buf'_def frame crsfFrameBytes_def)
  have b3: "crsfFrame ?sd ! 3 = frame ! 3"
    by (simp add: buf'_def nth_append lf)
  have "nat (int (length payload + 4) - 2) = length frame - 2"
    by (simp add: lf)
  then have b2: "crsfFrame ?sd ! nat (int (length payload + 4) - 2) = frame ! (length frame - 2)"
    by (simp add: buf'_def nth_append lf)
  have "crsfDispatch env tn (int (length payload + 4)) ?sd =
           Inr (if frame ! (length frame - 2)
                     = foldl crc8_poly_0xba 0 (CRSF_FRAMETYPE_COMMAND # butlast payload) \<and>
                   frame ! 3 = CRSF_ADDRESS_FLIGHT_CONTROLLER
                then [Call_crsfProcessCommand (drop 5 buf')] else [], ?sd)"
    using crsfDispatch_command [OF ty cmd, of env tn "int (length payload + 4)"]
    unfolding b3 b2 by simp
  then have "crsfFeed env s (crsfTimed (t0 # ts @ [tn]) frame) =
       Inr (calls1 @
            (if frame ! (length frame - 2)
                  = foldl crc8_poly_0xba 0 (CRSF_FRAMETYPE_COMMAND # butlast payload) \<and>
                frame ! 3 = CRSF_ADDRESS_FLIGHT_CONTROLLER
             then [Call_crsfProcessCommand (drop 5 buf')] else []), ?sd)"
    unfolding run by simp
  then show ?thesis
    using pre calls1 s1 unfolding buf'_def lf by blast
qed

theorem crsfFeed_command_frame_witness:
  "crsfFeed crsfEnv0 crsfInit
     (crsfTimed [0, 0, 0, 0, 0, 0, 0] [0xC8, 0x05, 0x32, 0xC8, 0xEA, 0x10, 0x5A]) =
     Inr ([Call_crsfProcessCommand (0x10 # 0x5A # replicate 57 0)],
          crsfInit\<lparr>crsfFrame := [0xC8, 0x05, 0x32, 0xC8, 0xEA, 0x10, 0x5A] @ replicate 57 0,
             crsfFramePosition := 0, crsfFrameErrorCnt := 0\<rparr>)"
proof -
  let ?payload = "[0xC8, 0xEA, 0x10] :: u8 list"
  let ?frame = "[0xC8, 0x05, 0x32, 0xC8, 0xEA, 0x10, 0x5A] :: u8 list"
  have 1: "length (crsfFrame crsfInit) = CRSF_FRAME_SIZE_MAX"
    by (simp add: crsfInit_def CRSF_FRAME_SIZE_MAX_def)
  have 2: "length ?payload \<le> 60" by simp
  have 3: "crsfFramePosition crsfInit = 0 \<or> crsfFrameTimedOut 0 (crsfFrameStartAtUs crsfInit)"
    by (simp add: crsfInit_def)
  have 4: "length ([0, 0, 0, 0, 0] :: u32 list) = length ?payload + 2" by simp
  have 5: "\<forall>t\<in>set ([0, 0, 0, 0, 0] @ [0 :: u32]). \<not> crsfFrameTimedOut t 0"
    by (simp add: crsfFrameTimedOut_def CRSF_TIME_NEEDED_PER_FRAME_US_def)
  have 6: "(0x5A :: u8) = foldl crc8_dvb_s2 0 (CRSF_FRAMETYPE_COMMAND # ?payload)"
    by code_simp
  have 7: "?frame = crsfFrameBytes 0xC8 CRSF_FRAMETYPE_COMMAND ?payload 0x5A"
    by code_simp
  have pre: "crsfFeed crsfEnv0 crsfInit (crsfTimed (0 # [0, 0, 0, 0, 0]) (butlast ?frame))
    = Inr ([], crsfInit\<lparr>crsfFrame := [0xC8, 0x05, 0x32, 0xC8, 0xEA, 0x10] @ replicate 58 0,
          crsfFramePosition := 6, crsfFrameErrorCnt := 6\<rparr>)"
    by code_simp
  have cond: "?frame ! (length ?frame - 2)
        = foldl crc8_poly_0xba 0 (CRSF_FRAMETYPE_COMMAND # butlast ?payload) \<and>
      ?frame ! 3 = CRSF_ADDRESS_FLIGHT_CONTROLLER"
    by code_simp
  have arg: "drop 5 (?frame @ drop (length ?frame) (crsfFrame crsfInit))
      = 0x10 # 0x5A # replicate 57 0"
    by code_simp
  have frm: "?frame @ drop (length ?frame) (crsfFrame crsfInit) = ?frame @ replicate 57 0"
    by code_simp
  from crsfFeed_command_frame [OF 1 2 3 4 5 6 7, of crsfEnv0]
  obtain calls1 s1 where
    a: "crsfFeed crsfEnv0 crsfInit (crsfTimed (0 # [0, 0, 0, 0, 0]) (butlast ?frame))
          = Inr (calls1, s1)"
    and b: "crsfFeed crsfEnv0 crsfInit (crsfTimed (0 # [0, 0, 0, 0, 0] @ [0]) ?frame) =
             Inr (calls1 @
                  (if ?frame ! (length ?frame - 2)
                        = foldl crc8_poly_0xba 0 (CRSF_FRAMETYPE_COMMAND # butlast ?payload) \<and>
                      ?frame ! 3 = CRSF_ADDRESS_FLIGHT_CONTROLLER
                   then [Call_crsfProcessCommand
                           (drop 5 (?frame @ drop (length ?frame) (crsfFrame crsfInit)))]
                   else []),
                  s1\<lparr>crsfFrame := ?frame @ drop (length ?frame) (crsfFrame crsfInit),
                     crsfFramePosition := 0, crsfFrameErrorCnt := 0\<rparr>)"
    by blast
  from a pre have e: "calls1 = []"
    "s1 = crsfInit\<lparr>crsfFrame := [0xC8, 0x05, 0x32, 0xC8, 0xEA, 0x10] @ replicate 58 0,
          crsfFramePosition := 6, crsfFrameErrorCnt := 6\<rparr>"
    by simp_all
  show ?thesis
    using b unfolding if_P [OF cond] arg frm e by simp
qed

subsection \<open>Unpacking a subset frame\<close>

lemma crsfSubset_start_neq: "(b :: u8) AND 0x1F \<noteq> 0xFF"
proof
  assume "b AND 0x1F = 0xFF"
  then have "bit (b AND 0x1F) 7 = bit (0xFF :: u8) 7" by simp
  then show False by (simp add: bit_and_iff)
qed

lemma crsfSubsetMerge_inv:
  assumes inv: "crsfSubsetInv buf off idx bm rv sc"
    and bytes: "off + 11 \<le> 8 * p" "3 + p \<le> length buf" "p \<le> 61"
  shows "\<exists>idx' bm' rv'. crsfSubsetMerge buf idx bm rv sc = Inr (idx', bm', rv', sc) \<and>
           crsfSubsetInv buf off idx' bm' rv' sc \<and> 11 \<le> unat bm'"
  using inv
proof (induction "11 - unat bm" arbitrary: idx bm rv rule: less_induct)
  case less
  note inv = less.prems
  have sc: "sc = buf ! 3 AND 0x1F" and cnt: "8 * unat idx = off + unat bm"
    and bm18: "unat bm \<le> 18"
    and bits: "\<And>i. bit rv i \<longleftrightarrow> i < unat bm \<and> crsfPayloadBit buf (off + i)"
    using inv by (simp_all add: crsfSubsetInv_def)
  show ?case
  proof (cases "bm < 11")
    case False
    then have "11 \<le> unat bm" by (simp add: word_less_nat_alt)
    moreover have "crsfSubsetMerge buf idx bm rv sc = Inr (idx, bm, rv, sc)"
      using False by (simp add: crsfSubsetMerge.simps)
    ultimately show ?thesis using inv by blast
  next
    case True
    then have bm: "unat bm < 11" by (simp add: word_less_nat_alt)
    have idx: "unat idx < p" using cnt bm bytes(1) by simp
    then have rd: "\<not> length buf \<le> 3 + unat idx" using bytes(2) by simp
    have sc255: "sc \<noteq> 0xFF" unfolding sc by (rule crsfSubset_start_neq)
    define b where "b = buf ! (3 + unat idx)"
    define rv' where "rv' = rv OR push_bit (unat bm) (ucast b)"
    have unf: "crsfSubsetMerge buf idx bm rv sc = crsfSubsetMerge buf (idx + 1) (bm + 8) rv' sc"
      using True rd sc255
      by (subst crsfSubsetMerge.simps) (simp add: rv'_def b_def)
    have idx1: "unat (idx + 1) = unat idx + 1"
      using idx bytes(3) by (simp add: unat_word_ariths)
    have bm8: "unat (bm + 8) = unat bm + 8"
      using bm by (simp add: unat_word_ariths)
    have bits': "bit rv' i \<longleftrightarrow> i < unat bm + 8 \<and> crsfPayloadBit buf (off + i)" for i
    proof (cases "i < unat bm")
      case True
      then show ?thesis
        by (simp add: rv'_def bit_or_iff bit_push_bit_iff bits)
    next
      case False
      then obtain j where j: "i = unat bm + j" by (metis le_add_diff_inverse not_less)
      have "off + i = 8 * unat idx + j" using cnt j by simp
      then have pb: "j < 8 \<Longrightarrow> crsfPayloadBit buf (off + i) = bit b j"
        by (simp add: crsfPayloadBit_def b_def)
      have "bit rv' i \<longleftrightarrow> j < 8 \<and> bit b j"
        using False bm unfolding j
        by (auto simp add: rv'_def bit_or_iff bit_push_bit_iff bits bit_ucast_iff
              dest: bit_imp_le_length)
      then show ?thesis using pb j by auto
    qed
    have inv': "crsfSubsetInv buf off (idx + 1) (bm + 8) rv' sc"
      unfolding crsfSubsetInv_def idx1 bm8 using sc cnt bm bits' by simp
    have "11 - unat (bm + 8) < 11 - unat bm" using bm bm8 by simp
    from less.hyps [OF this inv'] show ?thesis unfolding unf .
  qed
qed

lemma crsfSubsetMerge_first:
  assumes bytes: "16 \<le> 8 * p" "3 + p \<le> length buf" "p \<le> 61"
  shows "\<exists>idx' bm' rv'.
           crsfSubsetMerge buf 0 0 0 0xFF = Inr (idx', bm', rv', buf ! 3 AND 0x1F) \<and>
           crsfSubsetInv buf 5 idx' bm' rv' (buf ! 3 AND 0x1F) \<and> 11 \<le> unat bm'"
proof -
  define b where "b = buf ! 3"
  define rv' :: u32 where "rv' = ucast (drop_bit 5 b)"
  have rd: "\<not> length buf \<le> 3" using bytes by simp
  have unf: "crsfSubsetMerge buf 0 0 0 0xFF = crsfSubsetMerge buf 1 3 rv' (b AND 0x1F)"
    using rd
    by (subst crsfSubsetMerge.simps)
      (simp add: rv'_def b_def CRSF_SUBSET_RC_CHANNELS_PACKED_STARTING_CHANNEL_MASK_def)
  have bits: "bit rv' i \<longleftrightarrow> i < 3 \<and> crsfPayloadBit buf (5 + i)" for i
  proof (cases "i < 3")
    case True
    then have "(5 + i) div 8 = 0" "(5 + i) mod 8 = 5 + i" by simp_all
    then show ?thesis using True
      by (simp add: rv'_def crsfPayloadBit_def b_def bit_ucast_iff bit_drop_bit_eq)
  next
    case False
    then have "\<not> bit (drop_bit 5 b) i"
      by (auto simp add: bit_drop_bit_eq dest: bit_imp_le_length)
    then show ?thesis using False by (simp add: rv'_def bit_ucast_iff)
  qed
  have "crsfSubsetInv buf 5 1 3 rv' (buf ! 3 AND 0x1F)"
    unfolding crsfSubsetInv_def using bits by (simp add: b_def)
  from crsfSubsetMerge_inv [OF this _ bytes(2,3)] bytes(1)
  show ?thesis unfolding unf b_def by simp
qed

lemma crsfPackedField_bit:
  "bit (crsfPackedField buf off) i \<longleftrightarrow> i < 11 \<and> crsfPayloadBit buf (off + i)"
  by (auto simp add: crsfPackedField_def bit_horner_sum_bit_word_iff)

lemma crsfSubset_extract:
  assumes "crsfSubsetInv buf off idx bm rv sc" and "11 \<le> unat bm"
  shows "rv AND CRSF_SUBSET_RC_CHANNELS_PACKED_MASK = crsfPackedField buf off"
    and "crsfSubsetInv buf (off + 11) idx (bm - 11) (drop_bit 11 rv) sc"
    and "unat (bm - 11) < 11"
proof -
  have sc: "sc = buf ! 3 AND 0x1F" and cnt: "8 * unat idx = off + unat bm"
    and bm18: "unat bm \<le> 18"
    and bits: "\<And>i. bit rv i \<longleftrightarrow> i < unat bm \<and> crsfPayloadBit buf (off + i)"
    using assms(1) by (simp_all add: crsfSubsetInv_def)
  have m: "CRSF_SUBSET_RC_CHANNELS_PACKED_MASK = mask 11"
    by (simp add: CRSF_SUBSET_RC_CHANNELS_PACKED_MASK_def mask_eq_exp_minus_1)
  show "rv AND CRSF_SUBSET_RC_CHANNELS_PACKED_MASK = crsfPackedField buf off"
    unfolding m
    by (rule bit_word_eqI)
      (use assms(2) in \<open>auto simp add: bit_and_iff bit_mask_iff bits crsfPackedField_bit\<close>)
  have "11 \<le> bm" using assms(2) by (simp add: word_le_nat_alt)
  then have sub: "unat (bm - 11) = unat bm - 11"
    by (simp add: unat_sub)
  show "unat (bm - 11) < 11" using sub bm18 by simp
  have "bit (drop_bit 11 rv) i \<longleftrightarrow> i < unat bm - 11 \<and> crsfPayloadBit buf (off + 11 + i)" for i
    by (auto simp add: bit_drop_bit_eq bits add.assoc)
  then show "crsfSubsetInv buf (off + 11) idx (bm - 11) (drop_bit 11 rv) sc"
    unfolding crsfSubsetInv_def sub using sc cnt assms(2) bm18 by simp
qed

lemma crsfSubsetUnpack_inv:
  fixes buf :: "u8 list" and num n :: u8
  defines "start \<equiv> unat (buf ! 3 AND 0x1F)"
  assumes bytes: "5 + 11 * unat num \<le> 8 * p" "3 + p \<le> length buf" "p \<le> 61"
    and range: "start + unat num \<le> 16"
    and cd: "length cd = 16"
    and state: "(n = 0 \<and> idx = 0 \<and> bm = 0 \<and> rv = 0 \<and> sc = 0xFF) \<or>
                (crsfSubsetInv buf (5 + 11 * unat n) idx bm rv sc \<and> unat bm < 11)"
  shows "\<exists>cd'. crsfSubsetUnpack buf num n idx bm rv sc cd = Inr cd' \<and> length cd' = 16 \<and>
           (\<forall>i<16. cd' ! i =
              (if start + unat n \<le> i \<and> i < start + unat num
               then crsfPackedField buf (5 + 11 * (i - start)) else cd ! i))"
  using cd state
proof (induction "unat num - unat n" arbitrary: n idx bm rv sc cd rule: less_induct)
  case less
  show ?case
  proof (cases "n < num")
    case False
    then have "unat num \<le> unat n" by (simp add: word_less_nat_alt)
    moreover have "crsfSubsetUnpack buf num n idx bm rv sc cd = Inr cd"
      using False by (simp add: crsfSubsetUnpack.simps)
    ultimately show ?thesis using less.prems(1) by auto
  next
    case True
    then have n: "unat n < unat num" by (simp add: word_less_nat_alt)
    have off: "5 + 11 * unat n + 11 \<le> 8 * p" using n bytes(1) by simp
    have "\<exists>idx' bm' rv'.
            crsfSubsetMerge buf idx bm rv sc = Inr (idx', bm', rv', buf ! 3 AND 0x1F) \<and>
            crsfSubsetInv buf (5 + 11 * unat n) idx' bm' rv' (buf ! 3 AND 0x1F) \<and>
            11 \<le> unat bm'"
    proof (rule disjE [OF less.prems(2)])
      assume init: "n = 0 \<and> idx = 0 \<and> bm = 0 \<and> rv = 0 \<and> sc = 0xFF"
      have "16 \<le> 8 * p" using off by simp
      from crsfSubsetMerge_first [OF this bytes(2,3)] init show ?thesis by simp
    next
      assume inv: "crsfSubsetInv buf (5 + 11 * unat n) idx bm rv sc \<and> unat bm < 11"
      then have sc: "sc = buf ! 3 AND 0x1F" by (simp add: crsfSubsetInv_def)
      from crsfSubsetMerge_inv [OF conjunct1 [OF inv] off bytes(2,3)] show ?thesis
        unfolding sc .
    qed
    then obtain idx' bm' rv' where
      merge: "crsfSubsetMerge buf idx bm rv sc = Inr (idx', bm', rv', buf ! 3 AND 0x1F)"
      and inv': "crsfSubsetInv buf (5 + 11 * unat n) idx' bm' rv' (buf ! 3 AND 0x1F)"
      and bm': "11 \<le> unat bm'"
      by blast
    note ex = crsfSubset_extract [OF inv' bm']
    let ?cd1 = "cd[start + unat n := crsfPackedField buf (5 + 11 * unat n)]"
    have n1: "unat (n + 1) = unat n + 1"
      using n unsigned_less [of num, where ?'a = nat] by (simp add: unat_word_ariths)
    have inrange: "\<not> CRSF_MAX_CHANNEL \<le> start + unat n"
      using n range by (simp add: CRSF_MAX_CHANNEL_def)
    have unf: "crsfSubsetUnpack buf num n idx bm rv sc cd =
        crsfSubsetUnpack buf num (n + 1) idx' (bm' - 11) (drop_bit 11 rv') (buf ! 3 AND 0x1F) ?cd1"
      using True inrange
      by (subst crsfSubsetUnpack.simps) (simp add: merge ex(1) start_def)
    have inv1: "crsfSubsetInv buf (5 + 11 * unat (n + 1)) idx' (bm' - 11) (drop_bit 11 rv')
        (buf ! 3 AND 0x1F)"
    proof -
      have "5 + 11 * unat (n + 1) = 5 + 11 * unat n + 11" by (simp add: n1)
      then show ?thesis using ex(2) by (simp only:)
    qed
    have "unat num - unat (n + 1) < unat num - unat n" using n n1 by simp
    from less.hyps [OF this, of ?cd1 idx' "bm' - 11" "drop_bit 11 rv'" "buf ! 3 AND 0x1F"]
      less.prems(1) inv1 ex(3)
    obtain cd' where
      run: "crsfSubsetUnpack buf num (n + 1) idx' (bm' - 11) (drop_bit 11 rv')
              (buf ! 3 AND 0x1F) ?cd1 = Inr cd'"
      and len: "length cd' = 16"
      and vals: "\<forall>i<16. cd' ! i =
              (if start + unat (n + 1) \<le> i \<and> i < start + unat num
               then crsfPackedField buf (5 + 11 * (i - start)) else ?cd1 ! i)"
      by auto
    have "cd' ! i =
              (if start + unat n \<le> i \<and> i < start + unat num
               then crsfPackedField buf (5 + 11 * (i - start)) else cd ! i)" if "i < 16" for i
    proof (cases "i = start + unat n")
      case True
      then show ?thesis using vals that n less.prems(1) by (simp add: n1)
    next
      case False
      then show ?thesis using vals that by (auto simp add: n1)
    qed
    then show ?thesis unfolding unf using run len by blast
  qed
qed

lemma crsfSdiv_nat: "int m sdiv 11 = int (m div 11)"
proof -
  have "int (m div 11) = int m div 11" by (simp only: of_nat_div of_nat_numeral)
  moreover have "int m sdiv 11 = int m div 11"
    by (cases "m = 0") (simp_all add: signed_divide_int_def sgn_if)
  ultimately show ?thesis by simp
qed

lemma crsfSubsetNumOfChannels_nat:
  assumes "2 \<le> unat len" "unat len \<le> 62"
  shows "unat (crsfSubsetNumOfChannels len) = ((unat len - 2) * 8 - 5) div 11"
proof -
  define p where "p = unat len - 2"
  have len: "uint len = int p + 2"
    using assms(1) uint_nat [of len] by (simp add: p_def)
  have p: "p \<le> 60" using assms(2) by (simp add: p_def)
  have sd: "(int p * 8 - 5) sdiv 11 = int ((p * 8 - 5) div 11)"
  proof (cases "p = 0")
    case True
    then show ?thesis by (simp add: signed_divide_int_def)
  next
    case False
    then have "int p * 8 - 5 = int (p * 8 - 5)" by (simp add: of_nat_diff)
    then show ?thesis by (simp only: crsfSdiv_nat)
  qed
  have "p * 8 - 5 \<le> 475" using p by simp
  then have "(p * 8 - 5) div 11 \<le> 475 div 11" by (rule div_le_mono)
  then have "(p * 8 - 5) div 11 < 256" by simp
  then have "unat (word_of_nat ((p * 8 - 5) div 11) :: u8) = (p * 8 - 5) div 11"
    by (rule unat_word_of_nat_u8)
  then show ?thesis
    unfolding crsfSubsetNumOfChannels_def len p_def [symmetric]
    by (simp add: CRSF_FRAME_LENGTH_TYPE_CRC_def
          CRSF_SUBSET_RC_CHANNELS_PACKED_STARTING_CHANNEL_RESOLUTION_def
          CRSF_SUBSET_RC_CHANNELS_PACKED_RESOLUTION_def sd)
qed

lemma crsfSubset_writes_in_range:
  assumes latch: "crsfFrameDone s"
    and subset: "crsfChannelDataFrame s ! 2 \<noteq> CRSF_FRAMETYPE_RC_CHANNELS_PACKED"
    and buf: "length (crsfChannelDataFrame s) = CRSF_FRAME_SIZE_MAX"
    and cd: "length (crsfChannelData s) = CRSF_MAX_CHANNEL"
    and len: "2 \<le> unat (crsfChannelDataFrame s ! 1)" "unat (crsfChannelDataFrame s ! 1) \<le> 62"
    and num: "numOfChannels = ((unat (crsfChannelDataFrame s ! 1) - 2) * 8 - 5) div 11"
    and start: "startChannel = unat (crsfChannelDataFrame s ! 3 AND 0x1F)"
    and range: "numOfChannels = 0 \<or> startChannel + numOfChannels \<le> CRSF_MAX_CHANNEL"
  shows "\<exists>cd'.
           crsfFrameStatus s
             = Inr (RX_FRAME_COMPLETE, s\<lparr>crsfFrameDone := False, crsfChannelData := cd'\<rparr>) \<and>
           length cd' = CRSF_MAX_CHANNEL \<and>
           (\<forall>i<CRSF_MAX_CHANNEL. cd' ! i =
              (if startChannel \<le> i \<and> i < startChannel + numOfChannels
               then crsfPackedField (crsfChannelDataFrame s) (5 + 11 * (i - startChannel))
               else crsfChannelData s ! i)) \<and>
           (startChannel = 4 \<and> numOfChannels = 2 \<and>
            crsfPackedField (crsfChannelDataFrame s) 5 = 100 \<and>
            crsfPackedField (crsfChannelDataFrame s) 16 = 2000 \<longrightarrow>
              cd' = (crsfChannelData s)[4 := 100, 5 := 2000])"
proof -
  define frame where "frame = crsfChannelDataFrame s"
  define nw where "nw = crsfSubsetNumOfChannels (frame ! 1)"
  have nw: "unat nw = numOfChannels"
    unfolding nw_def num frame_def by (rule crsfSubsetNumOfChannels_nat [OF len])
  have cd16: "length (crsfChannelData s) = 16"
    using cd by (simp add: CRSF_MAX_CHANNEL_def)
  have "\<exists>cd'. crsfSubsetUnpack frame nw 0 0 0 0 0xFF (crsfChannelData s) = Inr cd' \<and>
           length cd' = 16 \<and>
           (\<forall>i<16. cd' ! i =
              (if startChannel \<le> i \<and> i < startChannel + numOfChannels
               then crsfPackedField frame (5 + 11 * (i - startChannel))
               else crsfChannelData s ! i))"
  proof (cases "numOfChannels = 0")
    case True
    then have "nw = 0" using nw by (simp add: unat_eq_0)
    then have "crsfSubsetUnpack frame nw 0 0 0 0 0xFF (crsfChannelData s)
        = Inr (crsfChannelData s)"
      by (simp add: crsfSubsetUnpack.simps)
    then show ?thesis using True cd16 by auto
  next
    case False
    define p where "p = unat (frame ! 1) - 2"
    have "11 * numOfChannels \<le> p * 8 - 5"
      unfolding num p_def frame_def by simp
    with False have b1: "5 + 11 * unat nw \<le> 8 * p" unfolding nw by simp
    have b2: "3 + p \<le> length frame" "p \<le> 61"
      using len(2) buf by (simp_all add: p_def frame_def CRSF_FRAME_SIZE_MAX_def)
    have r: "unat (frame ! 3 AND 0x1F) + unat nw \<le> 16"
      using range False unfolding nw by (simp add: start frame_def CRSF_MAX_CHANNEL_def)
    have st: "unat (frame ! 3 AND 0x1F) = startChannel"
      by (simp add: start frame_def)
    from crsfSubsetUnpack_inv [OF b1 b2 r cd16, of 0 0 0 0 "0xFF"]
    show ?thesis unfolding nw st by simp
  qed
  then obtain cd' where
    run: "crsfSubsetUnpack frame nw 0 0 0 0 0xFF (crsfChannelData s) = Inr cd'"
    and l: "length cd' = 16"
    and vals: "\<forall>i<16. cd' ! i =
              (if startChannel \<le> i \<and> i < startChannel + numOfChannels
               then crsfPackedField frame (5 + 11 * (i - startChannel))
               else crsfChannelData s ! i)"
    by blast
  have status: "crsfFrameStatus s
      = Inr (RX_FRAME_COMPLETE, s\<lparr>crsfFrameDone := False, crsfChannelData := cd'\<rparr>)"
    using latch subset run
    by (simp add: crsfFrameStatus_def Let_def nw_def frame_def)
  have ex: "cd' = (crsfChannelData s)[4 := 100, 5 := 2000]"
    if "startChannel = 4" "numOfChannels = 2"
      "crsfPackedField frame 5 = 100" "crsfPackedField frame 16 = 2000"
  proof (rule nth_equalityI)
    show "length cd' = length ((crsfChannelData s)[4 := 100, 5 := 2000])"
      using l cd16 by simp
    fix i
    assume "i < length cd'"
    then have i: "i < 16" using l by simp
    consider "i = 4" | "i = 5" | "i < 4 \<or> 5 < i" by linarith
    then show "cd' ! i = (crsfChannelData s)[4 := 100, 5 := 2000] ! i"
    proof cases
      case 1
      then show ?thesis using vals that cd16 by simp
    next
      case 2
      then show ?thesis using vals that cd16 by simp
    next
      case 3
      then show ?thesis using vals that i by auto
    qed
  qed
  have ex': "startChannel = 4 \<and> numOfChannels = 2 \<and>
            crsfPackedField (crsfChannelDataFrame s) 5 = 100 \<and>
            crsfPackedField (crsfChannelDataFrame s) 16 = 2000 \<longrightarrow>
              cd' = (crsfChannelData s)[4 := 100, 5 := 2000]"
    using ex unfolding frame_def by (intro impI) (elim conjE)
  show ?thesis
    unfolding CRSF_MAX_CHANNEL_def
  proof (intro exI [of _ cd'] conjI)
    show "crsfFrameStatus s
        = Inr (RX_FRAME_COMPLETE, s\<lparr>crsfFrameDone := False, crsfChannelData := cd'\<rparr>)"
      by (rule status)
    show "length cd' = 16" by (rule l)
    show "\<forall>i<16. cd' ! i =
              (if startChannel \<le> i \<and> i < startChannel + numOfChannels
               then crsfPackedField (crsfChannelDataFrame s) (5 + 11 * (i - startChannel))
               else crsfChannelData s ! i)"
      using vals unfolding frame_def .
    show "startChannel = 4 \<and> numOfChannels = 2 \<and>
            crsfPackedField (crsfChannelDataFrame s) 5 = 100 \<and>
            crsfPackedField (crsfChannelDataFrame s) 16 = 2000 \<longrightarrow>
              cd' = (crsfChannelData s)[4 := 100, 5 := 2000]"
      by (rule ex')
  qed
qed

lemma crsfSubsetUnpack_overrun:
  fixes buf :: "u8 list" and num n :: u8
  defines "start \<equiv> unat (buf ! 3 AND 0x1F)"
  assumes bytes: "5 + 11 * unat num \<le> 8 * p" "3 + p \<le> length buf" "p \<le> 61"
    and over: "16 < start + unat num"
    and n: "unat n < unat num"
    and state: "(n = 0 \<and> idx = 0 \<and> bm = 0 \<and> rv = 0 \<and> sc = 0xFF) \<or>
                (crsfSubsetInv buf (5 + 11 * unat n) idx bm rv sc \<and> unat bm < 11 \<and>
                 start + unat n \<le> 16)"
  shows "crsfSubsetUnpack buf num n idx bm rv sc cd
           = Inl (ChannelDataOverrun (max (start + unat n) 16))"
  using n state
proof (induction "unat num - unat n" arbitrary: n idx bm rv sc cd rule: less_induct)
  case less
  note n = less.prems(1)
  then have lt: "n < num" by (simp add: word_less_nat_alt)
  have off: "5 + 11 * unat n + 11 \<le> 8 * p" using n bytes(1) by simp
  have "\<exists>idx' bm' rv'.
          crsfSubsetMerge buf idx bm rv sc = Inr (idx', bm', rv', buf ! 3 AND 0x1F) \<and>
          crsfSubsetInv buf (5 + 11 * unat n) idx' bm' rv' (buf ! 3 AND 0x1F) \<and>
          11 \<le> unat bm'"
  proof (rule disjE [OF less.prems(2)])
    assume init: "n = 0 \<and> idx = 0 \<and> bm = 0 \<and> rv = 0 \<and> sc = 0xFF"
    have "16 \<le> 8 * p" using off by simp
    from crsfSubsetMerge_first [OF this bytes(2,3)] init show ?thesis by simp
  next
    assume inv: "crsfSubsetInv buf (5 + 11 * unat n) idx bm rv sc \<and> unat bm < 11 \<and>
                 start + unat n \<le> 16"
    then have sc: "sc = buf ! 3 AND 0x1F" by (simp add: crsfSubsetInv_def)
    from crsfSubsetMerge_inv [OF conjunct1 [OF inv] off bytes(2,3)] show ?thesis
      unfolding sc .
  qed
  then obtain idx' bm' rv' where
    merge: "crsfSubsetMerge buf idx bm rv sc = Inr (idx', bm', rv', buf ! 3 AND 0x1F)"
    and inv': "crsfSubsetInv buf (5 + 11 * unat n) idx' bm' rv' (buf ! 3 AND 0x1F)"
    and bm': "11 \<le> unat bm'"
    by blast
  note ex = crsfSubset_extract [OF inv' bm']
  show ?case
  proof (cases "16 \<le> start + unat n")
    case True
    then have "crsfSubsetUnpack buf num n idx bm rv sc cd
        = Inl (ChannelDataOverrun (start + unat n))"
      using lt
      by (subst crsfSubsetUnpack.simps) (simp add: merge start_def CRSF_MAX_CHANNEL_def)
    moreover have "max (start + unat n) 16 = start + unat n" using True by simp
    ultimately show ?thesis by simp
  next
    case False
    let ?cd1 = "cd[start + unat n := crsfPackedField buf (5 + 11 * unat n)]"
    have n1: "unat (n + 1) = unat n + 1"
      using n unsigned_less [of num, where ?'a = nat] by (simp add: unat_word_ariths)
    have unf: "crsfSubsetUnpack buf num n idx bm rv sc cd =
        crsfSubsetUnpack buf num (n + 1) idx' (bm' - 11) (drop_bit 11 rv') (buf ! 3 AND 0x1F) ?cd1"
      using lt False
      by (subst crsfSubsetUnpack.simps)
        (simp add: merge ex(1) start_def CRSF_MAX_CHANNEL_def)
    have inv1: "crsfSubsetInv buf (5 + 11 * unat (n + 1)) idx' (bm' - 11) (drop_bit 11 rv')
        (buf ! 3 AND 0x1F)"
    proof -
      have "5 + 11 * unat (n + 1) = 5 + 11 * unat n + 11" by (simp add: n1)
      then show ?thesis using ex(2) by (simp only:)
    qed
    have next_n: "unat (n + 1) < unat num" using False over n1 by simp
    have le16: "start + unat (n + 1) \<le> 16" using False n1 by simp
    have "unat num - unat (n + 1) < unat num - unat n" using n n1 by simp
    from less.hyps [OF this next_n, of idx' "bm' - 11" "drop_bit 11 rv'" "buf ! 3 AND 0x1F" ?cd1]
      inv1 ex(3) le16
    have "crsfSubsetUnpack buf num (n + 1) idx' (bm' - 11) (drop_bit 11 rv')
              (buf ! 3 AND 0x1F) ?cd1 = Inl (ChannelDataOverrun (max (start + unat (n + 1)) 16))"
      by simp
    moreover have "max (start + unat (n + 1)) 16 = max (start + unat n) 16"
      using False le16 by simp
    ultimately show ?thesis unfolding unf by simp
  qed
qed

text \<open>
  Claim C5. The poll finds the latch set and a snapshot that is not of the fixed format,
  with a length byte a latched frame can have (2 to 62). Let \<open>numOfChannels\<close> be
  \<open>(payloadBytes * 8 - 5) / 11\<close> (\<open>payloadBytes\<close> the length less 2, and 0 channels when
  there are fewer than five payload bits) and \<open>startChannel\<close> the low five bits of the first
  payload byte. When the addressed channels lie inside the array, the poll returns
  \<open>RX_FRAME_COMPLETE\<close>, clears the latch and changes nothing but the channel array: entry
  \<open>startChannel + n\<close> becomes the eleven bits of the payload stream that start at bit
  \<open>5 + 11 * n\<close>, for \<open>n < numOfChannels\<close>, and every other entry keeps its value. In
  particular a frame with starting channel 4 and the two packed values 100 and 2000 sets
  entry 4 to 100 and entry 5 to 2000 and nothing else. When the addressed channels reach
  past the array, the writes go on in the same order up to the first index outside it,
  \<open>max startChannel 16\<close>, where the write leaves the array.
\<close>

theorem crsfFrameStatus_unpack_subset:
  assumes latch: "crsfFrameDone s"
    and subset: "crsfChannelDataFrame s ! 2 \<noteq> CRSF_FRAMETYPE_RC_CHANNELS_PACKED"
    and buf: "length (crsfChannelDataFrame s) = CRSF_FRAME_SIZE_MAX"
    and cd: "length (crsfChannelData s) = CRSF_MAX_CHANNEL"
    and len: "2 \<le> unat (crsfChannelDataFrame s ! 1)" "unat (crsfChannelDataFrame s ! 1) \<le> 62"
    and num: "numOfChannels = ((unat (crsfChannelDataFrame s ! 1) - 2) * 8 - 5) div 11"
    and start: "startChannel = unat (crsfChannelDataFrame s ! 3 AND 0x1F)"
  shows "(numOfChannels = 0 \<or> startChannel + numOfChannels \<le> CRSF_MAX_CHANNEL \<longrightarrow>
           (\<exists>cd'.
              crsfFrameStatus s
                = Inr (RX_FRAME_COMPLETE, s\<lparr>crsfFrameDone := False, crsfChannelData := cd'\<rparr>) \<and>
              length cd' = CRSF_MAX_CHANNEL \<and>
              (\<forall>i<CRSF_MAX_CHANNEL. cd' ! i =
                 (if startChannel \<le> i \<and> i < startChannel + numOfChannels
                  then crsfPackedField (crsfChannelDataFrame s) (5 + 11 * (i - startChannel))
                  else crsfChannelData s ! i)) \<and>
              (startChannel = 4 \<and> numOfChannels = 2 \<and>
               crsfPackedField (crsfChannelDataFrame s) 5 = 100 \<and>
               crsfPackedField (crsfChannelDataFrame s) 16 = 2000 \<longrightarrow>
                 cd' = (crsfChannelData s)[4 := 100, 5 := 2000]))) \<and>
         (0 < numOfChannels \<and> CRSF_MAX_CHANNEL < startChannel + numOfChannels \<longrightarrow>
            crsfFrameStatus s = Inl (ChannelDataOverrun (max startChannel CRSF_MAX_CHANNEL)))"
proof (intro conjI impI)
  assume "numOfChannels = 0 \<or> startChannel + numOfChannels \<le> CRSF_MAX_CHANNEL"
  then show "\<exists>cd'.
              crsfFrameStatus s
                = Inr (RX_FRAME_COMPLETE, s\<lparr>crsfFrameDone := False, crsfChannelData := cd'\<rparr>) \<and>
              length cd' = CRSF_MAX_CHANNEL \<and>
              (\<forall>i<CRSF_MAX_CHANNEL. cd' ! i =
                 (if startChannel \<le> i \<and> i < startChannel + numOfChannels
                  then crsfPackedField (crsfChannelDataFrame s) (5 + 11 * (i - startChannel))
                  else crsfChannelData s ! i)) \<and>
              (startChannel = 4 \<and> numOfChannels = 2 \<and>
               crsfPackedField (crsfChannelDataFrame s) 5 = 100 \<and>
               crsfPackedField (crsfChannelDataFrame s) 16 = 2000 \<longrightarrow>
                 cd' = (crsfChannelData s)[4 := 100, 5 := 2000])"
    by (rule crsfSubset_writes_in_range [OF latch subset buf cd len num start])
next
  assume over: "0 < numOfChannels \<and> CRSF_MAX_CHANNEL < startChannel + numOfChannels"
  define frame where "frame = crsfChannelDataFrame s"
  define nw where "nw = crsfSubsetNumOfChannels (frame ! 1)"
  define p where "p = unat (frame ! 1) - 2"
  have nw: "unat nw = numOfChannels"
    unfolding nw_def num frame_def by (rule crsfSubsetNumOfChannels_nat [OF len])
  have st: "unat (frame ! 3 AND 0x1F) = startChannel"
    by (simp add: start frame_def)
  have "11 * numOfChannels \<le> p * 8 - 5"
    unfolding num p_def frame_def by simp
  with over have b1: "5 + 11 * unat nw \<le> 8 * p" unfolding nw by arith
  have b2: "3 + p \<le> length frame" "p \<le> 61"
    using len(2) buf by (simp_all add: p_def frame_def CRSF_FRAME_SIZE_MAX_def)
  have o: "16 < unat (frame ! 3 AND 0x1F) + unat nw"
    using over unfolding nw st by (simp add: CRSF_MAX_CHANNEL_def)
  have n0: "unat (0 :: u8) < unat nw" using over unfolding nw by simp
  have "crsfSubsetUnpack frame nw 0 0 0 0 0xFF (crsfChannelData s)
      = Inl (ChannelDataOverrun (max (unat (frame ! 3 AND 0x1F) + unat (0 :: u8)) 16))"
    by (rule crsfSubsetUnpack_overrun [OF b1 b2 o n0]) simp
  then have run: "crsfSubsetUnpack frame nw 0 0 0 0 0xFF (crsfChannelData s)
      = Inl (ChannelDataOverrun (max startChannel 16))"
    unfolding st by simp
  show "crsfFrameStatus s = Inl (ChannelDataOverrun (max startChannel CRSF_MAX_CHANNEL))"
    using latch subset run
    by (simp add: crsfFrameStatus_def Let_def nw_def frame_def CRSF_MAX_CHANNEL_def)
qed

theorem crsfFrameStatus_unpack_subset_witness:
  "crsfFrameStatus
     (crsfInit\<lparr>crsfFrameDone := True,
        crsfChannelDataFrame := [0xC8, 0x06, 0x17, 0x84, 0x0C, 0xD0, 0x07, 0x33] @ replicate 56 0,
        crsfChannelData := replicate 16 992\<rparr>)
   = Inr (RX_FRAME_COMPLETE,
        crsfInit\<lparr>crsfFrameDone := False,
          crsfChannelDataFrame := [0xC8, 0x06, 0x17, 0x84, 0x0C, 0xD0, 0x07, 0x33] @ replicate 56 0,
          crsfChannelData := replicate 4 992 @ [100, 2000] @ replicate 10 992\<rparr>)"
proof -
  let ?buf = "[0xC8, 0x06, 0x17, 0x84, 0x0C, 0xD0, 0x07, 0x33] @ replicate 56 (0 :: u8)"
  let ?s = "crsfInit\<lparr>crsfFrameDone := True, crsfChannelDataFrame := ?buf,
              crsfChannelData := replicate 16 992\<rparr>"
  have 1: "crsfFrameDone ?s" by simp
  have 2: "crsfChannelDataFrame ?s ! 2 \<noteq> CRSF_FRAMETYPE_RC_CHANNELS_PACKED"
    by code_simp
  have 3: "length (crsfChannelDataFrame ?s) = CRSF_FRAME_SIZE_MAX"
    by code_simp
  have 4: "length (crsfChannelData ?s) = CRSF_MAX_CHANNEL"
    by code_simp
  have 5: "2 \<le> unat (crsfChannelDataFrame ?s ! 1)" "unat (crsfChannelDataFrame ?s ! 1) \<le> 62"
    by code_simp+
  have 6: "(2 :: nat) = ((unat (crsfChannelDataFrame ?s ! 1) - 2) * 8 - 5) div 11"
    by code_simp
  have 7: "(4 :: nat) = unat (crsfChannelDataFrame ?s ! 3 AND 0x1F)"
    by code_simp
  have 8: "(2 :: nat) = 0 \<or> 4 + 2 \<le> CRSF_MAX_CHANNEL"
    by (simp add: CRSF_MAX_CHANNEL_def)
  have f: "4 = (4 :: nat) \<and> 2 = (2 :: nat) \<and>
      crsfPackedField (crsfChannelDataFrame ?s) 5 = 100 \<and>
      crsfPackedField (crsfChannelDataFrame ?s) 16 = 2000"
    by code_simp
  have "\<exists>cd'.
      crsfFrameStatus ?s
        = Inr (RX_FRAME_COMPLETE, ?s\<lparr>crsfFrameDone := False, crsfChannelData := cd'\<rparr>) \<and>
      length cd' = CRSF_MAX_CHANNEL \<and>
      (\<forall>i<CRSF_MAX_CHANNEL. cd' ! i =
         (if 4 \<le> i \<and> i < 4 + 2
          then crsfPackedField (crsfChannelDataFrame ?s) (5 + 11 * (i - 4))
          else crsfChannelData ?s ! i)) \<and>
      (4 = (4 :: nat) \<and> 2 = (2 :: nat) \<and>
       crsfPackedField (crsfChannelDataFrame ?s) 5 = 100 \<and>
       crsfPackedField (crsfChannelDataFrame ?s) 16 = 2000 \<longrightarrow>
         cd' = (crsfChannelData ?s)[4 := 100, 5 := 2000])"
    using crsfFrameStatus_unpack_subset [OF 1 2 3 4 5 6 7] 8 by (elim conjE) (rule mp)
  then obtain cd' where
    a: "crsfFrameStatus ?s
        = Inr (RX_FRAME_COMPLETE, ?s\<lparr>crsfFrameDone := False, crsfChannelData := cd'\<rparr>)"
    and e: "4 = (4 :: nat) \<and> 2 = (2 :: nat) \<and>
       crsfPackedField (crsfChannelDataFrame ?s) 5 = 100 \<and>
       crsfPackedField (crsfChannelDataFrame ?s) 16 = 2000 \<longrightarrow>
         cd' = (crsfChannelData ?s)[4 := 100, 5 := 2000]"
    by (elim exE conjE)
  from e f have cd': "cd' = (crsfChannelData ?s)[4 := 100, 5 := 2000]"
    by (rule mp)
  have r: "?s\<lparr>crsfFrameDone := False,
               crsfChannelData := (crsfChannelData ?s)[4 := 100, 5 := 2000]\<rparr>
      = crsfInit\<lparr>crsfFrameDone := False, crsfChannelDataFrame := ?buf,
          crsfChannelData := replicate 4 992 @ [100, 2000] @ replicate 10 992\<rparr>"
    by code_simp
  show ?thesis
    using a unfolding cd' r .
qed

end
